theory Spec2Isabelle
  imports Complex_Main "HOL-Library.AList" "HOL-Library.Log_Nat"
begin

section \<open>Data model of \<^verbatim>\<open>gameMachine.ts\<close>\<close>

text \<open>
  JavaScript strings are modelled as \<^typ>\<open>string\<close> (every string the program builds is
  ASCII), integral JavaScript numbers as \<^typ>\<open>int\<close> (lengths, loop counters and tallies,
  which only count upwards from 0, as \<^typ>\<open>nat\<close>). A JavaScript number that need not be
  integral is the rational it stands for: the accuracy score is computed in IEEE
  doubles, each operation rounded (section \<open>IEEE doubles\<close>); the numbers that
  \<^verbatim>\<open>Math.random()\<close> returns and their products with a length are taken exactly. An
  optional field \<^verbatim>\<open>f?: T\<close> is a \<^typ>\<open>'a option\<close>, \<^verbatim>\<open>undefined\<close> being \<^const>\<open>None\<close>. A thrown
  \<^verbatim>\<open>TypeError\<close> is the result \<^const>\<open>None\<close> of the action that throws.
\<close>

datatype SquareColor = Light | Dark

datatype TrialOutcome = Hit | FalseAlarm | CorrectRejection | Miss

datatype UserResponse = Match

datatype Piece = Knight | Bishop

record Trial =
  stimulus :: string
  isTarget :: bool
  userResponse :: "UserResponse option"
  outcome :: "TrialOutcome option"

record Round =
  round_piecePositionForRound :: string
  trials :: "Trial list"

type_synonym RoundData = "(int \<times> Round) list"

record GameContext =
  currentSquare :: "string option"
  score :: int
  piecePositionForRound :: string
  guessesRemainingInRound :: int
  voiceEnabled :: bool
  countdown :: int
  currentGuess :: "SquareColor option"
  incorrectCount :: int
  positionsForRound :: "string list"
  currentRound :: int
  accuracyScore :: "rat option"
  roundData :: RoundData

datatype GameEvent =
    Start
  | UserResponseEvent UserResponse
  | Tick
  | Restart
  | VoiceToggle
  | After3000
    \<comment> \<open>the delayed transition \<^verbatim>\<open>after: { 3000: ... }\<close> of \<^verbatim>\<open>startingRound\<close>\<close>

text \<open>\<^verbatim>\<open>array[i]\<close>: the element, or \<^verbatim>\<open>undefined\<close> outside the array.\<close>

definition jsIndex :: "'a list \<Rightarrow> int \<Rightarrow> 'a option" where
  "jsIndex array i = (if 0 \<le> i \<and> i < int (length array) then Some (array ! nat i) else None)"

definition NUMBER_OF_ROUNDS :: int where
  "NUMBER_OF_ROUNDS = 4"

definition TRIALS_PER_ROUND :: nat where
  "TRIALS_PER_ROUND = 5"

section \<open>Square colours and the board\<close>

definition files :: string where
  "files = ''abcdefgh''"

definition ranks :: string where
  "ranks = ''12345678''"

text \<open>\<^verbatim>\<open>s.indexOf(c)\<close> for a one-character \<^verbatim>\<open>c\<close>: the first index, or \<open>-1\<close>.\<close>

fun indexOf :: "string \<Rightarrow> char \<Rightarrow> int" where
  "indexOf [] c = -1"
| "indexOf (x # xs) c =
     (if x = c then 0 else (let k = indexOf xs c in if k < 0 then -1 else k + 1))"

definition generateSquareColors :: "(string \<times> SquareColor) list" where
  "generateSquareColors =
     fold (\<lambda>file squareColors.
       fold (\<lambda>rank squareColors.
         (let squareName = [file, rank];
              fileIndex = indexOf files file;
              rankIndex = indexOf ranks rank
          in AList.update squareName
               (if (fileIndex + rankIndex) mod 2 = 0 then Dark else Light) squareColors))
         ranks squareColors)
       files []"

definition squareColors :: "(string \<times> SquareColor) list" where
  "squareColors = generateSquareColors"

definition getSquareColor :: "string \<Rightarrow> SquareColor option" where
  "getSquareColor square = map_of squareColors square"

text \<open>\<^verbatim>\<open>Object.keys(squareColors)\<close>: the keys in insertion order.\<close>

definition squares :: "string list" where
  "squares = map fst squareColors"

section \<open>Reachability\<close>

text \<open>
  \<^verbatim>\<open>String.fromCharCode(n)\<close> is the one-unit string of code \<open>n mod 2^16\<close>; it is kept
  as its code. Comparing two one-unit strings compares their codes, so
  \<^verbatim>\<open>newFile >= "a" && newFile <= "h" && newRank >= "1" && newRank <= "8"\<close> is \<open>inBoard\<close>.
\<close>

definition fromCharCode :: "int \<Rightarrow> int" where
  "fromCharCode c = c mod 65536"

definition inBoard :: "int \<Rightarrow> int \<Rightarrow> bool" where
  "inBoard newFile newRank \<longleftrightarrow>
     97 \<le> newFile \<and> newFile \<le> 104 \<and> 49 \<le> newRank \<and> newRank \<le> 56"

definition squareName :: "int \<Rightarrow> int \<Rightarrow> string" where
  "squareName newFile newRank = [char_of newFile, char_of newRank]"

definition knightMoves :: "(int \<times> int) list" where
  "knightMoves = [(-2, -1), (-2, 1), (-1, -2), (-1, 2), (1, -2), (1, 2), (2, -1), (2, 1)]"

definition bishopMoves :: "(int \<times> int) list" where
  "bishopMoves = [(-1, -1), (-1, 1), (1, -1), (1, 1)]"

fun knightLoop :: "int \<Rightarrow> int \<Rightarrow> (int \<times> int) list \<Rightarrow> string list \<Rightarrow> string list" where
  "knightLoop file rank [] reachablePositions = reachablePositions"
| "knightLoop file rank ((fileOffset, rankOffset) # moves) reachablePositions =
     (let newFile = fromCharCode (file + fileOffset);
          newRank = fromCharCode (rank + rankOffset)
      in knightLoop file rank moves
           (if inBoard newFile newRank
            then reachablePositions @ [squareName newFile newRank]
            else reachablePositions))"

text \<open>
  The bishop's inner \<^verbatim>\<open>while\<close>: it slides along one direction until it leaves the
  board. For the move \<open>(0, 0)\<close> it would not end, hence the option.
\<close>

partial_function (option) bishopSlide ::
  "int \<Rightarrow> int \<Rightarrow> int \<times> int \<Rightarrow> int \<Rightarrow> int \<Rightarrow> string list \<Rightarrow> string list option" where
  "bishopSlide file rank move fileOffset rankOffset reachablePositions =
     (let newFile = fromCharCode (file + fileOffset);
          newRank = fromCharCode (rank + rankOffset)
      in if inBoard newFile newRank
         then bishopSlide file rank move (fileOffset + fst move) (rankOffset + snd move)
                (reachablePositions @ [squareName newFile newRank])
         else Some reachablePositions)"

declare bishopSlide.simps [code]

fun bishopLoop ::
  "int \<Rightarrow> int \<Rightarrow> (int \<times> int) list \<Rightarrow> string list \<Rightarrow> string list option" where
  "bishopLoop file rank [] reachablePositions = Some reachablePositions"
| "bishopLoop file rank (move # moves) reachablePositions =
     (case bishopSlide file rank move (fst move) (snd move) reachablePositions of
        None \<Rightarrow> None
      | Some reachablePositions' \<Rightarrow> bishopLoop file rank moves reachablePositions')"

text \<open>
  \<^verbatim>\<open>const [file, rank] = position.split("")\<close>: with fewer than two characters
  \<^verbatim>\<open>rank.charCodeAt\<close> (or \<^verbatim>\<open>file.charCodeAt\<close>) throws, which is \<^const>\<open>None\<close>.
\<close>

fun getReachablePositions :: "Piece \<Rightarrow> string \<Rightarrow> string list option" where
  "getReachablePositions piece (file # rank # rest) =
     (case piece of
        Knight \<Rightarrow> Some (knightLoop (of_char file) (of_char rank) knightMoves [])
      | Bishop \<Rightarrow> bishopLoop (of_char file) (of_char rank) bishopMoves [])"
| "getReachablePositions piece position = None"

definition isReachable :: "Piece \<Rightarrow> string \<Rightarrow> string \<Rightarrow> bool option" where
  "isReachable piece start end =
     (case getReachablePositions piece start of
        None \<Rightarrow> None
      | Some reachablePositions \<Rightarrow> Some (end \<in> set reachablePositions))"

section \<open>IEEE doubles\<close>

text \<open>
  A double is the rational it stands for. \<open>toDouble x\<close> is the double nearest to \<open>x\<close>,
  the even one of two equally near (the rounding of every arithmetic operation): with
  \<open>2^e \<le> |x| < 2^(e+1)\<close> the doubles around \<open>x\<close> are the multiples of \<open>2^(e-52)\<close>, and of
  \<open>2^(-1074)\<close> below the normal range. Above the largest double the result would be
  \<^verbatim>\<open>Infinity\<close>, which has no value here; the accuracy score rounds no number above
  \<open>2^53 + 1\<close>.
\<close>

definition exponentOf :: "rat \<Rightarrow> int" where
  "exponentOf x =
     (case quotient_of x of (p, q) \<Rightarrow>
        (let d = bitlen p - bitlen q in if 2 powi d \<le> x then d else d - 1))"

definition roundTiesToEven :: "rat \<Rightarrow> int" where
  "roundTiesToEven m =
     (let n = \<lfloor>m\<rfloor>; f = m - of_int n
      in if f < 1 / 2 then n else if 1 / 2 < f then n + 1 else if even n then n else n + 1)"

definition ulp :: "rat \<Rightarrow> rat" where
  "ulp x = 2 powi (max (exponentOf x) (- 1022) - 52)"

definition toDouble :: "rat \<Rightarrow> rat" where
  "toDouble x =
     (if x = 0 then 0
      else sgn x * (of_int (roundTiesToEven (\<bar>x\<bar> / ulp \<bar>x\<bar>)) * ulp \<bar>x\<bar>))"

text \<open>
  \<^verbatim>\<open>Math.round(x)\<close>: the integer nearest to \<open>x\<close>, the larger one of two equally near. It
  is a double whenever \<open>x\<close> is.
\<close>

definition mathRound :: "rat \<Rightarrow> rat" where
  "mathRound x = of_int \<lfloor>x + 1 / 2\<rfloor>"

section \<open>Outcome classification and accuracy\<close>

text \<open>The \<^verbatim>\<open>if\<close> chain of \<^verbatim>\<open>evaluateGuess\<close> that computes \<^verbatim>\<open>outcome\<close>.\<close>

definition classify :: "bool \<Rightarrow> UserResponse option \<Rightarrow> TrialOutcome" where
  "classify target response =
     (if target \<and> response = Some Match then Hit
      else if \<not> target \<and> response = Some Match then FalseAlarm
      else if \<not> target \<and> response = None then CorrectRejection
      else Miss)"

text \<open>
  \<^verbatim>\<open>calculateAccuracyScore\<close>: the two nested loops carry the pair
  \<open>(totalTrials, correctResponses)\<close>; both counters are doubles, and so are the
  quotient, its product with 10000 and the final quotient by 100.
\<close>

definition countTrial :: "Trial \<Rightarrow> rat \<times> rat \<Rightarrow> rat \<times> rat" where
  "countTrial trial acc =
     (case acc of (totalTrials, correctResponses) \<Rightarrow>
        (toDouble (totalTrials + 1),
         if outcome trial = Some Hit \<or> outcome trial = Some CorrectRejection
         then toDouble (correctResponses + 1) else correctResponses))"

definition countRounds :: "RoundData \<Rightarrow> rat \<times> rat" where
  "countRounds rd = fold (\<lambda>rnd acc. fold countTrial (trials rnd) acc) (map snd rd) (0, 0)"

text \<open>The lines after the loops, from the two counters.\<close>

fun accuracyOfCounts :: "rat \<times> rat \<Rightarrow> rat" where
  "accuracyOfCounts (totalTrials, correctResponses) =
     (if totalTrials = 0 then 0
      else (let accuracy = toDouble (correctResponses / totalTrials)
            in toDouble (mathRound (toDouble (accuracy * 10000)) / 100)))"

definition calculateAccuracyScore :: "RoundData \<Rightarrow> rat" where
  "calculateAccuracyScore rd = accuracyOfCounts (countRounds rd)"

section \<open>Round generation\<close>

text \<open>
  \<^verbatim>\<open>Math.random()\<close> is an input: the functions below take the list of the numbers it
  returns, in call order, and hand back what they did not consume. A function that
  needs more numbers than the list holds has not returned yet (\<open>OutOfDraws\<close>); this is
  how the two unbounded retry loops are made total. JavaScript would store
  \<^verbatim>\<open>undefined\<close> in a \<^verbatim>\<open>string[]\<close> where an index misses the array; the model stops there
  with \<open>UndefinedElement\<close>. Round lengths are natural numbers.
\<close>

datatype GenError = OutOfDraws | UndefinedElement | ThrownTypeError

type_synonym draws = "rat list"

definition getRandomArrayElement :: "'a list \<Rightarrow> rat \<Rightarrow> 'a option" where
  "getRandomArrayElement array r = jsIndex array \<lfloor>r * of_nat (length array)\<rfloor>"

definition getRandomSquare :: "rat \<Rightarrow> string option" where
  "getRandomSquare r = jsIndex squares \<lfloor>r * of_nat (length squares)\<rfloor>"

text \<open>
  \<^verbatim>\<open>let p = draw(); while (selectedPositions.includes(p)) { p = draw(); }\<close> for either
  way of drawing.
\<close>

fun drawUntilNew ::
  "(rat \<Rightarrow> string option) \<Rightarrow> string list \<Rightarrow> draws \<Rightarrow> GenError + (string \<times> draws)" where
  "drawUntilNew draw selectedPositions [] = Inl OutOfDraws"
| "drawUntilNew draw selectedPositions (r # rs) =
     (case draw r of
        None \<Rightarrow> Inl UndefinedElement
      | Some p \<Rightarrow>
          if p \<in> set selectedPositions then drawUntilNew draw selectedPositions rs
          else Inr (p, rs))"

function selectLoop ::
  "string list \<Rightarrow> nat \<Rightarrow> nat \<Rightarrow> nat \<Rightarrow> string list \<Rightarrow> draws
     \<Rightarrow> GenError + (string list \<times> draws)" where
  "selectLoop reachablePositions targetReachableCount roundLength i selectedPositions rs =
     (if i < roundLength then
        (case (if i < targetReachableCount
               then drawUntilNew (getRandomArrayElement reachablePositions) selectedPositions rs
               else drawUntilNew getRandomSquare selectedPositions rs) of
           Inl e \<Rightarrow> Inl e
         | Inr (p, rs') \<Rightarrow>
             selectLoop reachablePositions targetReachableCount roundLength (i + 1)
               (selectedPositions @ [p]) rs')
      else Inr (selectedPositions, rs))"
  by pat_completeness auto
termination
  by (relation "measure (\<lambda>(R, k, n, i, sel, rs). n - i)") auto

text \<open>
  \<^verbatim>\<open>shuffleArray\<close>: \<open>i\<close> runs from \<open>length - 1\<close> down to \<open>1\<close>; the destructuring
  assignment reads both elements before it writes either.
\<close>

fun shuffleLoop :: "nat \<Rightarrow> 'a list \<Rightarrow> draws \<Rightarrow> GenError + ('a list \<times> draws)" where
  "shuffleLoop 0 shuffledArray rs = Inr (shuffledArray, rs)"
| "shuffleLoop (Suc i') shuffledArray [] = Inl OutOfDraws"
| "shuffleLoop (Suc i') shuffledArray (r # rs) =
     (let i = Suc i'; j = \<lfloor>r * of_nat (i + 1)\<rfloor>
      in case (jsIndex shuffledArray (int i), jsIndex shuffledArray j) of
           (Some x, Some y) \<Rightarrow> shuffleLoop i' (shuffledArray[i := y, nat j := x]) rs
         | _ \<Rightarrow> Inl UndefinedElement)"

definition shuffleArray :: "'a list \<Rightarrow> draws \<Rightarrow> GenError + ('a list \<times> draws)" where
  "shuffleArray array rs = shuffleLoop (length array - 1) array rs"

record PositionsForRound =
  positions :: "string list"
  positiveSampleCount :: nat

text \<open>
  \<^verbatim>\<open>Math.floor(roundLength * 0.6)\<close> and \<^verbatim>\<open>Math.floor(roundLength * 0.4)\<close> are taken
  exactly, as \<open>\<lfloor>roundLength * 3 / 5\<rfloor>\<close> and \<open>\<lfloor>roundLength * 2 / 5\<rfloor>\<close>.
\<close>

definition targetCount :: "nat \<Rightarrow> rat \<Rightarrow> nat" where
  "targetCount roundLength r =
     (let targetPositiveSamplePercentage = (if r > 1 / 2 then 6 / 10 else 4 / 10 :: rat)
      in nat \<lfloor>of_nat roundLength * targetPositiveSamplePercentage\<rfloor>)"

definition generatePositionsForRound ::
  "Piece \<Rightarrow> string \<Rightarrow> nat \<Rightarrow> draws \<Rightarrow> GenError + (PositionsForRound \<times> draws)" where
  "generatePositionsForRound piece position roundLength rs =
     (case getReachablePositions piece position of
        None \<Rightarrow> Inl ThrownTypeError
      | Some reachablePositions \<Rightarrow>
          (case rs of
             [] \<Rightarrow> Inl OutOfDraws
           | r # rs1 \<Rightarrow>
               (let targetReachableCount = targetCount roundLength r
                in case selectLoop reachablePositions targetReachableCount roundLength 0 [] rs1 of
                     Inl e \<Rightarrow> Inl e
                   | Inr (selectedPositions, rs2) \<Rightarrow>
                       (case shuffleArray selectedPositions rs2 of
                          Inl e \<Rightarrow> Inl e
                        | Inr (shuffled, rs3) \<Rightarrow>
                            Inr (\<lparr>positions = shuffled,
                                  positiveSampleCount = targetReachableCount\<rparr>, rs3)))))"

text \<open>The numbers \<^verbatim>\<open>Math.random()\<close> can return: at least 0 and below 1.\<close>

definition validDraws :: "draws \<Rightarrow> bool" where
  "validDraws rs \<longleftrightarrow> (\<forall>r \<in> set rs. 0 \<le> r \<and> r < 1)"

section \<open>The session machine\<close>

datatype PlayingRoundState = WaitingForResponse | HitTag | FalseAlarmTag

datatype PlayingState = StartingRound | PlayingRound PlayingRoundState

datatype MachineState = Idle | Countdown | Playing PlayingState | GameOver

type_synonym config = "MachineState \<times> GameContext"

definition initialContext :: GameContext where
  "initialContext =
     \<lparr>currentSquare = None, score = 0, piecePositionForRound = [],
      guessesRemainingInRound = int TRIALS_PER_ROUND, voiceEnabled = True, countdown = 3,
      currentGuess = None, incorrectCount = 0, positionsForRound = [], currentRound = 0,
      accuracyScore = None, roundData = []\<rparr>"

subsection \<open>Actions\<close>

text \<open>
  Each \<^verbatim>\<open>assign\<close> action is a function on the context; the actions of one transition
  run in the order listed, each on the context the previous one left. The two
  \<^verbatim>\<open>announce...\<close> actions only speak and leave the context alone, so they are not
  modelled. An object spread \<^verbatim>\<open>{...roundData, [k]: v}\<close> is \<^const>\<open>AList.update\<close>.
\<close>

definition decrementCountdown :: "GameContext \<Rightarrow> GameContext" where
  "decrementCountdown ctx = ctx\<lparr>countdown := countdown ctx - 1\<rparr>"

definition initialiseCountdown :: "GameContext \<Rightarrow> GameContext" where
  "initialiseCountdown ctx = ctx\<lparr>countdown := 3\<rparr>"

definition newTrial :: "string \<Rightarrow> string \<Rightarrow> Trial option" where
  "newTrial piecePosition s =
     map_option (\<lambda>t. \<lparr>stimulus = s, isTarget = t, userResponse = None, outcome = None\<rparr>)
       (isReachable Knight piecePosition s)"

definition initialiseNextRound :: "draws \<Rightarrow> GameContext \<Rightarrow> GameContext option" where
  "initialiseNextRound rs ctx =
     (case rs of
        [] \<Rightarrow> None
      | r # rs' \<Rightarrow>
          (case getRandomSquare r of
             None \<Rightarrow> None
           | Some piecePosition \<Rightarrow>
               (case generatePositionsForRound Knight piecePosition TRIALS_PER_ROUND rs' of
                  Inl e \<Rightarrow> None
                | Inr (generated, rs'') \<Rightarrow>
                    (case those (map (newTrial piecePosition) (positions generated)) of
                       None \<Rightarrow> None
                     | Some newTrials \<Rightarrow>
                         Some (ctx\<lparr>piecePositionForRound := piecePosition,
                                   guessesRemainingInRound := int TRIALS_PER_ROUND,
                                   positionsForRound := positions generated,
                                   currentRound := currentRound ctx + 1,
                                   roundData :=
                                     AList.update (currentRound ctx + 1)
                                       \<lparr>round_piecePositionForRound = piecePosition,
                                        trials = newTrials\<rparr>
                                       (roundData ctx)\<rparr>)))))"

definition decrementGuessesRemainingInRound :: "GameContext \<Rightarrow> GameContext" where
  "decrementGuessesRemainingInRound ctx =
     ctx\<lparr>guessesRemainingInRound := guessesRemainingInRound ctx - 1\<rparr>"

definition setupNextTrial :: "GameContext \<Rightarrow> GameContext" where
  "setupNextTrial ctx =
     ctx\<lparr>currentSquare :=
           jsIndex (positionsForRound ctx)
             (int TRIALS_PER_ROUND - guessesRemainingInRound ctx)\<rparr>"

definition clearCurrentGuess :: "GameContext \<Rightarrow> GameContext" where
  "clearCurrentGuess ctx = ctx\<lparr>currentGuess := None\<rparr>"

text \<open>
  \<^verbatim>\<open>saveUserResponse\<close> and \<^verbatim>\<open>evaluateGuess\<close> read the round of \<open>currentRound\<close> and
  its trial at index \<open>TRIALS_PER_ROUND - guessesRemainingInRound\<close>, and put a copy
  of that trial, with one more field, at the end of the round's \<open>trials\<close>. A missing
  round throws. With a missing trial \<^verbatim>\<open>evaluateGuess\<close> throws, and
  \<^verbatim>\<open>saveUserResponse\<close> would append a record with no stimulus, which \<open>Trial\<close> has no
  value for: the model stops there as well.
\<close>

definition saveUserResponse :: "UserResponse \<Rightarrow> GameContext \<Rightarrow> GameContext option" where
  "saveUserResponse response ctx =
     (case map_of (roundData ctx) (currentRound ctx) of
        None \<Rightarrow> None
      | Some currentRoundData \<Rightarrow>
          (case jsIndex (trials currentRoundData)
                  (int TRIALS_PER_ROUND - guessesRemainingInRound ctx) of
             None \<Rightarrow> None
           | Some currentTrial \<Rightarrow>
               Some (ctx\<lparr>roundData :=
                     AList.update (currentRound ctx)
                       (currentRoundData\<lparr>trials :=
                          trials currentRoundData @
                            [currentTrial\<lparr>userResponse := Some response\<rparr>]\<rparr>)
                       (roundData ctx)\<rparr>)))"

definition evaluateGuess :: "GameContext \<Rightarrow> GameContext option" where
  "evaluateGuess ctx =
     (case map_of (roundData ctx) (currentRound ctx) of
        None \<Rightarrow> None
      | Some currentRoundData \<Rightarrow>
          (case jsIndex (trials currentRoundData)
                  (int TRIALS_PER_ROUND - guessesRemainingInRound ctx) of
             None \<Rightarrow> None
           | Some currentTrial \<Rightarrow>
               (case isReachable Knight (round_piecePositionForRound currentRoundData)
                       (stimulus currentTrial) of
                  None \<Rightarrow> None
                | Some target \<Rightarrow>
                    Some (ctx\<lparr>roundData :=
                          AList.update (currentRound ctx)
                            (currentRoundData\<lparr>trials :=
                               trials currentRoundData @
                                 [currentTrial\<lparr>outcome :=
                                    Some (classify target (userResponse currentTrial))\<rparr>]\<rparr>)
                            (roundData ctx)\<rparr>))))"

definition calculateAccuracyScoreAction :: "GameContext \<Rightarrow> GameContext" where
  "calculateAccuracyScoreAction ctx =
     ctx\<lparr>accuracyScore := Some (calculateAccuracyScore (roundData ctx))\<rparr>"

definition trackIncorrectGuess :: "GameContext \<Rightarrow> GameContext" where
  "trackIncorrectGuess ctx = ctx\<lparr>incorrectCount := incorrectCount ctx + 1\<rparr>"

subsection \<open>Guards\<close>

text \<open>\<^verbatim>\<open>!!context.currentSquare\<close> is false for \<^verbatim>\<open>undefined\<close> and for the empty string.\<close>

definition isHit :: "GameContext \<Rightarrow> bool option" where
  "isHit ctx =
     (case currentSquare ctx of
        None \<Rightarrow> Some False
      | Some square \<Rightarrow>
          if square = [] then Some False
          else isReachable Knight (piecePositionForRound ctx) square)"

definition countdownComplete :: "GameContext \<Rightarrow> bool" where
  "countdownComplete ctx \<longleftrightarrow> countdown ctx = 0"

subsection \<open>Transitions\<close>

text \<open>
  One event, run to completion: the deepest active state that declares the event takes
  it, its first candidate whose guard holds is selected, the transition's actions run,
  then the entry actions of the states entered. An event that no active state declares
  falls to the last equation. The first argument is what \<^verbatim>\<open>Math.random()\<close> returns
  during the step.
\<close>

fun step :: "draws \<Rightarrow> config \<Rightarrow> GameEvent \<Rightarrow> config option" where
  "step rs (Idle, ctx) Start =
     map_option (Pair (Playing StartingRound)) (initialiseNextRound rs ctx)"
| "step rs (Idle, ctx) VoiceToggle = Some (Idle, ctx\<lparr>voiceEnabled := \<not> voiceEnabled ctx\<rparr>)"
| "step rs (Countdown, ctx) Tick =
     (if countdownComplete ctx
      then map_option (Pair (Playing StartingRound))
             (initialiseNextRound rs (initialiseCountdown ctx))
      else Some (Countdown, decrementCountdown ctx))"
| "step rs (Playing StartingRound, ctx) After3000 =
     Some (Playing (PlayingRound WaitingForResponse), setupNextTrial ctx)"
| "step rs (Playing (PlayingRound WaitingForResponse), ctx) (UserResponseEvent response) =
     (case isHit ctx of
        None \<Rightarrow> None
      | Some h \<Rightarrow>
          map_option (Pair (Playing (PlayingRound (if h then HitTag else FalseAlarmTag))))
            (Option.bind (saveUserResponse response ctx) evaluateGuess))"
| "step rs (Playing (PlayingRound sub), ctx) Tick =
     (if guessesRemainingInRound ctx > 1
      then map_option
             (\<lambda>ctx'. (Playing (PlayingRound WaitingForResponse),
                       clearCurrentGuess (setupNextTrial ctx')))
             (evaluateGuess (decrementGuessesRemainingInRound ctx))
      else if currentRound ctx \<ge> NUMBER_OF_ROUNDS
      then Some (GameOver, calculateAccuracyScoreAction ctx)
      else map_option (Pair (Playing StartingRound)) (initialiseNextRound rs ctx))"
| "step rs (GameOver, ctx) Restart = Some (Idle, ctx)"
| "step rs (s, ctx) e = Some (s, ctx)"

text \<open>The events each state configuration declares (its own \<^verbatim>\<open>on\<close>/\<^verbatim>\<open>after\<close> or an ancestor's).\<close>

fun declares :: "MachineState \<Rightarrow> GameEvent \<Rightarrow> bool" where
  "declares Idle Start = True"
| "declares Idle VoiceToggle = True"
| "declares Countdown Tick = True"
| "declares (Playing StartingRound) After3000 = True"
| "declares (Playing (PlayingRound sub)) Tick = True"
| "declares (Playing (PlayingRound WaitingForResponse)) (UserResponseEvent response) = True"
| "declares GameOver Restart = True"
| "declares s e = False"

fun run :: "config \<Rightarrow> (GameEvent \<times> draws) list \<Rightarrow> config option" where
  "run c [] = Some c"
| "run c ((e, rs) # es) = (case step rs c e of None \<Rightarrow> None | Some c' \<Rightarrow> run c' es)"

inductive reachable :: "config \<Rightarrow> bool" where
  initial: "reachable (Idle, initialContext)"
| step: "reachable c \<Longrightarrow> step rs c e = Some c' \<Longrightarrow> reachable c'"

text \<open>
  What every configuration the machine reaches satisfies: between one and five trials
  remain; no trial record carries the outcome hit or false alarm; and while a round is
  played the context holds that round, with a piece position of two characters and
  with its five trials, none of which carries a response, in front of the copies
  appended since.
\<close>

definition wellFormed :: "config \<Rightarrow> bool" where
  "wellFormed c \<longleftrightarrow>
     1 \<le> guessesRemainingInRound (snd c) \<and>
     guessesRemainingInRound (snd c) \<le> int TRIALS_PER_ROUND \<and>
     (\<forall>k rd. map_of (roundData (snd c)) k = Some rd \<longrightarrow>
        (\<forall>t \<in> set (trials rd). outcome t \<noteq> Some Hit \<and> outcome t \<noteq> Some FalseAlarm)) \<and>
     ((\<exists>ps. fst c = Playing ps) \<longrightarrow>
        2 \<le> length (piecePositionForRound (snd c)) \<and>
        (\<exists>rd. map_of (roundData (snd c)) (currentRound (snd c)) = Some rd \<and>
              TRIALS_PER_ROUND \<le> length (trials rd) \<and>
              2 \<le> length (round_piecePositionForRound rd) \<and>
              (\<forall>t \<in> set (take TRIALS_PER_ROUND (trials rd)). userResponse t = None)))"

section \<open>Sample inputs and observations\<close>

text \<open>
  Draws for one round: the knight stands on \<open>d4\<close> (square 27 of 64), the ratio drawn is
  \<open>0.4\<close> (two targets), the targets are \<open>b3\<close> and \<open>b5\<close>, the distractors \<open>a1\<close>, \<open>a2\<close>
  and \<open>a3\<close>, and the four shuffle draws are \<open>0\<close>, which leaves the order
  \<open>b5, a1, a2, a3, b3\<close>.
\<close>

definition sampleDraws :: draws where
  "sampleDraws = [27 / 64, 0, 0, 1 / 8, 0, 1 / 64, 1 / 32, 0, 0, 0, 0]"

text \<open>A round in which the subject never responds: the delay, then four ticks.\<close>

definition silentRound :: "(GameEvent \<times> draws) list" where
  "silentRound = [(After3000, []), (Tick, []), (Tick, []), (Tick, []), (Tick, [])]"

text \<open>
  A whole session without a response: \<open>start\<close>, four silent rounds, each closed by the
  tick that starts the next round, and the last by the tick that ends the session.
\<close>

definition silentSession :: "(GameEvent \<times> draws) list" where
  "silentSession =
     (Start, sampleDraws) # silentRound @ (Tick, sampleDraws) # silentRound @
     (Tick, sampleDraws) # silentRound @ (Tick, sampleDraws) # silentRound @ [(Tick, [])]"

text \<open>
  The same session, then \<open>restart\<close> and a second session: \<open>start\<close>, one silent round and
  the tick that closes it.
\<close>

definition secondSession :: "(GameEvent \<times> draws) list" where
  "secondSession =
     silentSession @ (Restart, []) # (Start, sampleDraws) # silentRound @ [(Tick, [])]"

text \<open>The first trial's window: the round starts, \<open>b5\<close> is shown, the first tick closes its window.\<close>

definition firstWindow :: "(GameEvent \<times> draws) list" where
  "firstWindow = [(Start, sampleDraws), (After3000, []), (Tick, [])]"

text \<open>The subject answers \<open>match\<close> to the first trial (\<open>b5\<close>, a target) and to the second (\<open>a1\<close>).\<close>

definition twoResponses :: "(GameEvent \<times> draws) list" where
  "twoResponses =
     [(Start, sampleDraws), (After3000, []), (UserResponseEvent Match, []), (Tick, []),
      (UserResponseEvent Match, []), (Tick, [])]"

text \<open>The trial records a configuration holds for a round, and those of one stimulus.\<close>

definition trialRecords :: "int \<Rightarrow> config \<Rightarrow> Trial list" where
  "trialRecords k c =
     (case map_of (roundData (snd c)) k of None \<Rightarrow> [] | Some rd \<Rightarrow> trials rd)"

definition recordsOf :: "int \<Rightarrow> string \<Rightarrow> config \<Rightarrow> Trial list" where
  "recordsOf k s c = filter (\<lambda>t. stimulus t = s) (trialRecords k c)"

section \<open>The accuracy score in the words of its contract\<close>

text \<open>
  All trial records of all rounds, those that count as correct, and those that carry
  an outcome; a percentage rounded to two decimal places, halves upwards.
\<close>

definition allTrials :: "RoundData \<Rightarrow> Trial list" where
  "allTrials rd = concat (map (trials \<circ> snd) rd)"

definition correctTrials :: "RoundData \<Rightarrow> Trial list" where
  "correctTrials rd =
     filter (\<lambda>t. outcome t = Some Hit \<or> outcome t = Some CorrectRejection) (allTrials rd)"

definition classifiedTrials :: "RoundData \<Rightarrow> Trial list" where
  "classifiedTrials rd = filter (\<lambda>t. outcome t \<noteq> None) (allTrials rd)"

definition roundToTwoPlaces :: "rat \<Rightarrow> rat" where
  "roundToTwoPlaces x = of_int \<lfloor>x * 100 + 1 / 2\<rfloor> / 100"

text \<open>The score as the contract words it: over the classified trials.\<close>

definition accuracyOverClassified :: "RoundData \<Rightarrow> rat" where
  "accuracyOverClassified rd =
     (if classifiedTrials rd = [] then 0
      else roundToTwoPlaces
             (100 * (of_nat (length (correctTrials rd)) / of_nat (length (classifiedTrials rd)))))"

text \<open>A round with two records, of which one carries an outcome.\<close>

definition oneOfTwoClassified :: RoundData where
  "oneOfTwoClassified =
     [(1, \<lparr>round_piecePositionForRound = ''d4'',
           trials =
             [\<lparr>stimulus = ''b5'', isTarget = True, userResponse = None, outcome = None\<rparr>,
              \<lparr>stimulus = ''a1'', isTarget = False, userResponse = None,
               outcome = Some CorrectRejection\<rparr>]\<rparr>)]"

text \<open>Three hits, a correct rejection and a miss, as in the contract's example.\<close>

definition fiveClassified :: RoundData where
  "fiveClassified =
     [(1, \<lparr>round_piecePositionForRound = ''d4'',
           trials =
             [\<lparr>stimulus = ''b3'', isTarget = True, userResponse = Some Match,
               outcome = Some Hit\<rparr>,
              \<lparr>stimulus = ''b5'', isTarget = True, userResponse = Some Match,
               outcome = Some Hit\<rparr>,
              \<lparr>stimulus = ''c2'', isTarget = True, userResponse = Some Match,
               outcome = Some Hit\<rparr>,
              \<lparr>stimulus = ''a1'', isTarget = False, userResponse = None,
               outcome = Some CorrectRejection\<rparr>,
              \<lparr>stimulus = ''c6'', isTarget = True, userResponse = None,
               outcome = Some Miss\<rparr>]\<rparr>)]"

text \<open>A round whose two records carry no outcome.\<close>

definition noneClassified :: RoundData where
  "noneClassified =
     [(1, \<lparr>round_piecePositionForRound = ''d4'',
           trials =
             [\<lparr>stimulus = ''b5'', isTarget = True, userResponse = None, outcome = None\<rparr>,
              \<lparr>stimulus = ''a1'', isTarget = False, userResponse = None, outcome = None\<rparr>]\<rparr>)]"

text \<open>A round of 800 classified trials, 251 of them hits and the others misses.\<close>

definition manyClassified :: RoundData where
  "manyClassified =
     [(1, \<lparr>round_piecePositionForRound = ''d4'',
           trials =
             replicate 251
               \<lparr>stimulus = ''b5'', isTarget = True, userResponse = Some Match,
                outcome = Some Hit\<rparr> @
             replicate 549
               \<lparr>stimulus = ''b3'', isTarget = True, userResponse = None,
                outcome = Some Miss\<rparr>\<rparr>)]"

section \<open>Knight geometry in the words of its contract\<close>

text \<open>
  The squares whose file and rank differ from the origin's by \<open>(\<plusminus>1, \<plusminus>2)\<close> or
  \<open>(\<plusminus>2, \<plusminus>1)\<close>, among the 64 squares of the board.
\<close>

definition knightOffset :: "int \<Rightarrow> int \<Rightarrow> bool" where
  "knightOffset df dr \<longleftrightarrow> (\<bar>df\<bar> = 1 \<and> \<bar>dr\<bar> = 2) \<or> (\<bar>df\<bar> = 2 \<and> \<bar>dr\<bar> = 1)"

definition knightSquares :: "string \<Rightarrow> string list" where
  "knightSquares origin =
     [[f, r]. f \<leftarrow> files, r \<leftarrow> ranks,
        knightOffset (indexOf files f - indexOf files (origin ! 0))
                     (indexOf ranks r - indexOf ranks (origin ! 1))]"

section \<open>Properties\<close>

subsection \<open>Classification\<close>

text \<open>
  \<^bold>\<open>C4.\<close> The classification maps (target, match) to hit, (distractor, match) to false
  alarm, (distractor, no response) to correct rejection and (target, no response) to
  miss; a response is either \<open>match\<close> or absent, so the four rows are all the inputs.
\<close>

theorem classify_truth_table:
  "classify True (Some Match) = Hit \<and>
   classify False (Some Match) = FalseAlarm \<and>
   classify False None = CorrectRejection \<and>
   classify True None = Miss \<and>
   (\<forall>response. response = Some Match \<or> response = None)"
proof -
  have "response = Some Match \<or> response = None" for response :: "UserResponse option"
    by (cases response) (auto intro: UserResponse.exhaust)
  then show ?thesis
    by (simp add: classify_def)
qed

subsection \<open>Rounding to a double\<close>

lemma pow2_pos [simp]: "0 < (2::rat) powi e"
  by (simp add: power_int_def)

lemma pow2_add: "(2::rat) powi (a + b) = 2 powi a * 2 powi b"
  by (simp add: power_int_add)

lemma pow2_diff: "(2::rat) powi (a - b) = 2 powi a / 2 powi b"
  by (simp add: power_int_diff)

lemma pow2_mono: "a \<le> b \<Longrightarrow> (2::rat) powi a \<le> 2 powi b"
  by (simp add: power_int_increasing)

lemma pow2_less_cancel: "(2::rat) powi a < 2 powi b \<Longrightarrow> a < b"
proof (rule ccontr)
  assume l: "(2::rat) powi a < 2 powi b" and "\<not> a < b"
  then have "b \<le> a" by simp
  then have "(2::rat) powi b \<le> 2 powi a" by (rule pow2_mono)
  with l show False by simp
qed

lemma bitlen_bounds_rat:
  assumes "0 < p"
  shows "(2::rat) powi (bitlen p - 1) \<le> of_int p \<and> (of_int p :: rat) < 2 powi bitlen p"
proof -
  from assms have b1: "1 \<le> bitlen p" by (auto simp: bitlen_alt_def)
  from bitlen_bounds [OF assms] have lo: "2 ^ nat (bitlen p - 1) \<le> p" and hi: "p < 2 ^ nat (bitlen p)"
    by simp_all
  from lo have "(of_int (2 ^ nat (bitlen p - 1)) :: rat) \<le> of_int p" by (simp only: of_int_le_iff)
  then have l: "(2::rat) powi (bitlen p - 1) \<le> of_int p" using b1 by (simp add: power_int_def)
  from hi have "(of_int p :: rat) < of_int (2 ^ nat (bitlen p))" by (simp only: of_int_less_iff)
  then have h: "(of_int p :: rat) < 2 powi bitlen p" using b1 by (simp add: power_int_def)
  from l h show ?thesis by simp
qed

lemma exponentOf_bounds:
  assumes "0 < x"
  shows "2 powi exponentOf x \<le> x \<and> x < 2 powi (exponentOf x + 1)"
proof -
  obtain p q where pq: "quotient_of x = (p, q)" by (cases "quotient_of x")
  then have q: "0 < q" and x: "x = of_int p / of_int q"
    by (simp_all add: quotient_of_denom_pos quotient_of_div)
  from assms x q have p: "0 < p" by (simp add: zero_less_divide_iff)
  let ?d = "bitlen p - bitlen q"
  note bp = bitlen_bounds_rat [OF p] and bq = bitlen_bounds_rat [OF q]
  have qpos: "(0::rat) < of_int q" using q by simp
  have "x < 2 powi bitlen p / 2 powi (bitlen q - 1)"
  proof -
    have "x \<le> of_int p / 2 powi (bitlen q - 1)"
      unfolding x using bq p by (intro frac_le) simp_all
    also have "\<dots> < 2 powi bitlen p / 2 powi (bitlen q - 1)"
      using bp by (simp add: divide_strict_right_mono)
    finally show ?thesis .
  qed
  also have "\<dots> = 2 powi (?d + 1)" by (simp add: pow2_diff [symmetric] algebra_simps)
  finally have hi: "x < 2 powi (?d + 1)" .
  have "(2::rat) powi (bitlen p - 1) / 2 powi bitlen q \<le> of_int p / 2 powi bitlen q"
    using bp by (simp add: divide_right_mono)
  also have "\<dots> \<le> x"
    unfolding x using bq p qpos by (intro frac_le) simp_all
  finally have "2 powi (bitlen p - 1 - bitlen q) \<le> x" by (simp add: pow2_diff)
  then have lo: "2 powi (?d - 1) \<le> x" by (simp add: algebra_simps)
  show ?thesis
  proof (cases "2 powi ?d \<le> x")
    case True
    with pq hi show ?thesis by (simp add: exponentOf_def Let_def)
  next
    case False
    with pq lo show ?thesis by (simp add: exponentOf_def Let_def)
  qed
qed

lemma exponentOf_eqI:
  assumes "2 powi e \<le> x" "x < 2 powi (e + 1)"
  shows "exponentOf x = e"
proof -
  have x: "0 < x" using pow2_pos [of e] assms(1) by (rule less_le_trans)
  note b = exponentOf_bounds [OF x]
  from b assms(2) have "(2::rat) powi exponentOf x < 2 powi (e + 1)" by simp
  then have 1: "exponentOf x < e + 1" by (rule pow2_less_cancel)
  from b assms(1) have "(2::rat) powi e < 2 powi (exponentOf x + 1)" by simp
  then have 2: "e < exponentOf x + 1" by (rule pow2_less_cancel)
  from 1 2 show ?thesis by simp
qed

lemma exponentOf_mono:
  assumes "0 < x" "x \<le> y"
  shows "exponentOf x \<le> exponentOf y"
proof -
  from assms have y: "0 < y" by simp
  from exponentOf_bounds [OF assms(1)] exponentOf_bounds [OF y] assms(2)
  have "(2::rat) powi exponentOf x < 2 powi (exponentOf y + 1)" by simp
  then have "exponentOf x < exponentOf y + 1" by (rule pow2_less_cancel)
  then show ?thesis by simp
qed

lemma exponentOf_ge:
  assumes "2 powi e \<le> x"
  shows "e \<le> exponentOf x"
proof -
  have x: "0 < x" using pow2_pos [of e] assms by (rule less_le_trans)
  from exponentOf_bounds [OF x] assms have "(2::rat) powi e < 2 powi (exponentOf x + 1)" by simp
  then have "e < exponentOf x + 1" by (rule pow2_less_cancel)
  then show ?thesis by simp
qed


lemma roundTiesToEven_of_int [simp]: "roundTiesToEven (of_int n) = n"
  by (simp add: roundTiesToEven_def)

lemma roundTiesToEven_le: "m \<le> of_int n \<Longrightarrow> roundTiesToEven m \<le> n"
proof -
  assume a: "m \<le> of_int n"
  then have f: "\<lfloor>m\<rfloor> \<le> n" by (simp add: floor_le_iff)
  show ?thesis
  proof (cases "\<lfloor>m\<rfloor> = n")
    case True
    with a have "m - of_int \<lfloor>m\<rfloor> \<le> 0" by simp
    then show ?thesis using True by (simp add: roundTiesToEven_def Let_def)
  next
    case False
    with f have "\<lfloor>m\<rfloor> + 1 \<le> n" by simp
    then show ?thesis by (simp add: roundTiesToEven_def Let_def)
  qed
qed

lemma roundTiesToEven_ge: "of_int n \<le> m \<Longrightarrow> n \<le> roundTiesToEven m"
proof -
  assume "of_int n \<le> m"
  then have "n \<le> \<lfloor>m\<rfloor>" by (simp add: le_floor_iff)
  then show ?thesis by (simp add: roundTiesToEven_def Let_def)
qed

lemma roundTiesToEven_error: "\<bar>of_int (roundTiesToEven m) - m\<bar> \<le> 1 / 2"
proof -
  have "of_int \<lfloor>m\<rfloor> \<le> m" "m < of_int \<lfloor>m\<rfloor> + 1" by linarith+
  then show ?thesis by (auto simp: roundTiesToEven_def Let_def abs_le_iff)
qed

lemma ulp_pos [simp]: "0 < ulp x"
  by (simp add: ulp_def)

lemma ulp_nonzero [simp]: "ulp x \<noteq> 0"
  by (metis ulp_pos less_irrefl)

lemma pow2_52: "(2::rat) powi 52 * 2 powi (e - 52) = 2 powi e"
  using pow2_add [of 52 "e - 52"] by simp

lemma pow2_53: "(2::rat) powi 53 * 2 powi (e - 52) = 2 powi (e + 1)"
  using pow2_add [of 53 "e - 52"] by (simp add: add.commute)

text \<open>In the normal range the spacing of the doubles follows the exponent.\<close>

lemma ulp_normal: "2 powi (- 1022) \<le> x \<Longrightarrow> ulp x = 2 powi (exponentOf x - 52)"
  using exponentOf_ge [of "- 1022" x] by (simp add: ulp_def max_def)

lemma toDouble_pos: "0 < x \<Longrightarrow> toDouble x = of_int (roundTiesToEven (x / ulp x)) * ulp x"
  by (simp add: toDouble_def)

lemma toDouble_zero [simp]: "toDouble 0 = 0"
  by (simp add: toDouble_def)

lemma scaled_bounds:
  assumes "2 powi (- 1022) \<le> x"
  shows "2 powi 52 \<le> x / ulp x \<and> x / ulp x < 2 powi 53"
proof -
  have x: "0 < x" using pow2_pos [of "- 1022"] assms by (rule less_le_trans)
  let ?e = "exponentOf x"
  note b = exponentOf_bounds [OF x]
  have u: "ulp x = 2 powi (?e - 52)" using assms by (rule ulp_normal)
  have "2 powi 52 * ulp x = 2 powi ?e" unfolding u by (rule pow2_52)
  with b have lo: "2 powi 52 * ulp x \<le> x" by simp
  have "2 powi 53 * ulp x = 2 powi (?e + 1)" unfolding u by (rule pow2_53)
  with b have hi: "x < 2 powi 53 * ulp x" by simp
  from lo hi show ?thesis by (simp add: pos_le_divide_eq pos_divide_less_eq)
qed

lemma toDouble_nonneg: "0 \<le> x \<Longrightarrow> 0 \<le> toDouble x"
proof (cases "x = 0")
  case True
  then show ?thesis by simp
next
  case False
  assume "0 \<le> x"
  with False have x: "0 < x" by simp
  then have "of_int 0 \<le> x / ulp x" by (simp add: zero_le_divide_iff less_imp_le)
  then have "0 \<le> roundTiesToEven (x / ulp x)" by (rule roundTiesToEven_ge)
  then have "0 \<le> (of_int (roundTiesToEven (x / ulp x)) :: rat) * ulp x"
    by (intro mult_nonneg_nonneg) (simp_all add: less_imp_le)
  then show ?thesis unfolding toDouble_pos [OF x] .
qed

lemma toDouble_ge_pow2:
  assumes "2 powi (- 1022) \<le> x"
  shows "2 powi exponentOf x \<le> toDouble x"
proof -
  have x: "0 < x" using pow2_pos [of "- 1022"] assms by (rule less_le_trans)
  have u: "ulp x = 2 powi (exponentOf x - 52)" using assms by (rule ulp_normal)
  from scaled_bounds [OF assms] have "of_int (2 ^ 52) \<le> x / ulp x" by simp
  then have "2 ^ 52 \<le> roundTiesToEven (x / ulp x)" by (rule roundTiesToEven_ge)
  then have "(of_int (2 ^ 52) :: rat) \<le> of_int (roundTiesToEven (x / ulp x))"
    by (simp only: of_int_le_iff)
  then have f1: "of_int (2 ^ 52) * ulp x \<le> of_int (roundTiesToEven (x / ulp x)) * ulp x"
    by (intro mult_right_mono) (simp_all add: less_imp_le)
  have f2: "of_int (2 ^ 52) * ulp x = 2 powi exponentOf x"
    unfolding u using pow2_52 [of "exponentOf x"] by simp
  from f1 show ?thesis unfolding f2 toDouble_pos [OF x] .
qed

lemma toDouble_le_pow2:
  assumes "2 powi (- 1022) \<le> x"
  shows "toDouble x \<le> 2 powi (exponentOf x + 1)"
proof -
  have x: "0 < x" using pow2_pos [of "- 1022"] assms by (rule less_le_trans)
  have u: "ulp x = 2 powi (exponentOf x - 52)" using assms by (rule ulp_normal)
  from scaled_bounds [OF assms] have "x / ulp x \<le> of_int (2 ^ 53)" by simp
  then have "roundTiesToEven (x / ulp x) \<le> 2 ^ 53" by (rule roundTiesToEven_le)
  then have "(of_int (roundTiesToEven (x / ulp x)) :: rat) \<le> of_int (2 ^ 53)"
    by (simp only: of_int_le_iff)
  then have f1: "of_int (roundTiesToEven (x / ulp x)) * ulp x \<le> of_int (2 ^ 53) * ulp x"
    by (intro mult_right_mono) (simp_all add: less_imp_le)
  have f2: "of_int (2 ^ 53) * ulp x = 2 powi (exponentOf x + 1)"
    unfolding u using pow2_53 [of "exponentOf x"] by simp
  from f1 show ?thesis unfolding f2 toDouble_pos [OF x] .
qed

text \<open>Rounding does not cross a double.\<close>

lemma toDouble_le_double:
  assumes x: "2 powi (- 1022) \<le> x" and xy: "x \<le> y" and y: "toDouble y = y"
  shows "toDouble x \<le> y"
proof -
  have x0: "0 < x" using pow2_pos [of "- 1022"] x by (rule less_le_trans)
  with xy have y0: "0 < y" by simp
  from x xy have yn: "2 powi (- 1022) \<le> y" by simp
  have e: "exponentOf x \<le> exponentOf y" using x0 xy by (rule exponentOf_mono)
  show ?thesis
  proof (cases "exponentOf x = exponentOf y")
    case True
    then have u: "ulp x = ulp y" using x yn by (simp add: ulp_normal)
    from y y0 have "of_int (roundTiesToEven (y / ulp y)) * ulp y = y" by (simp add: toDouble_pos)
    then have m: "y / ulp y = of_int (roundTiesToEven (y / ulp y))"
      by (metis nonzero_mult_div_cancel_right ulp_nonzero)
    from xy have "x / ulp x \<le> y / ulp y"
      unfolding u by (intro divide_right_mono) (simp_all add: less_imp_le)
    with m have "x / ulp x \<le> of_int (roundTiesToEven (y / ulp y))" by simp
    then have "roundTiesToEven (x / ulp x) \<le> roundTiesToEven (y / ulp y)"
      by (rule roundTiesToEven_le)
    then have "(of_int (roundTiesToEven (x / ulp x)) :: rat) \<le> of_int (roundTiesToEven (y / ulp y))"
      by (simp only: of_int_le_iff)
    then have "of_int (roundTiesToEven (x / ulp x)) * ulp x \<le>
               of_int (roundTiesToEven (y / ulp y)) * ulp y"
      unfolding u by (intro mult_right_mono) (simp_all add: less_imp_le)
    then have "toDouble x \<le> toDouble y" unfolding toDouble_pos [OF x0] toDouble_pos [OF y0] .
    with y show ?thesis by simp
  next
    case False
    with e have "exponentOf x + 1 \<le> exponentOf y" by simp
    then have "(2::rat) powi (exponentOf x + 1) \<le> 2 powi exponentOf y" by (rule pow2_mono)
    also have "\<dots> \<le> y" using exponentOf_bounds [OF y0] by simp
    finally show ?thesis using toDouble_le_pow2 [OF x] by simp
  qed
qed

lemma toDouble_error:
  assumes "2 powi (- 1022) \<le> x"
  shows "\<bar>toDouble x - x\<bar> \<le> x * 2 powi (- 53)"
proof -
  have x: "0 < x" using pow2_pos [of "- 1022"] assms by (rule less_le_trans)
  let ?m = "x / ulp x"
  have u: "ulp x = 2 powi (exponentOf x - 52)" using assms by (rule ulp_normal)
  have "toDouble x - x = (of_int (roundTiesToEven ?m) - ?m) * ulp x"
    unfolding toDouble_pos [OF x] by (simp add: left_diff_distrib)
  then have "\<bar>toDouble x - x\<bar> = \<bar>of_int (roundTiesToEven ?m) - ?m\<bar> * ulp x"
    by (simp add: abs_mult abs_of_pos)
  also have "\<dots> \<le> 1 / 2 * ulp x"
    using roundTiesToEven_error [of ?m] by (intro mult_right_mono) (simp_all add: less_imp_le)
  also have "\<dots> = 2 powi exponentOf x * 2 powi (- 53)"
    unfolding u by (simp add: power_int_diff power_int_minus field_simps)
  also have "\<dots> \<le> x * 2 powi (- 53)"
    using exponentOf_bounds [OF x] by (intro mult_right_mono) (simp_all add: less_imp_le)
  finally show ?thesis .
qed

text \<open>Naturals below \<open>2^53\<close> are doubles.\<close>

lemma toDouble_of_nat:
  assumes "n < 2 ^ 53"
  shows "toDouble (of_nat n) = of_nat n"
proof (cases "n = 0")
  case True
  then show ?thesis by simp
next
  case False
  let ?x = "of_nat n :: rat"
  from False have x1: "1 \<le> ?x" by simp
  then have x0: "0 < ?x" by simp
  have "(2::rat) powi (- 1022) \<le> 2 powi 0" by (rule pow2_mono) simp
  with x1 have xn: "2 powi (- 1022) \<le> ?x" by simp
  let ?e = "exponentOf ?x"
  have u: "ulp ?x = 2 powi (?e - 52)" using xn by (rule ulp_normal)
  from x1 have e0: "0 \<le> ?e" using exponentOf_ge [of 0 ?x] by simp
  have "?x < of_nat (2 ^ 53)" using assms by (simp only: of_nat_less_iff)
  then have "?x < 2 powi 53" by simp
  with exponentOf_bounds [OF x0] have "(2::rat) powi ?e < 2 powi 53" by simp
  then have e53: "?e < 53" by (rule pow2_less_cancel)
  then have k: "0 \<le> 52 - ?e" by simp
  have "?x / ulp ?x = ?x * 2 powi (52 - ?e)"
    unfolding u by (simp add: power_int_diff field_simps)
  also have "\<dots> = of_int (int n * 2 ^ nat (52 - ?e))"
    using k by (simp add: power_int_def)
  finally have eq: "?x / ulp ?x = of_int (int n * 2 ^ nat (52 - ?e))" .
  have "roundTiesToEven (?x / ulp ?x) = int n * 2 ^ nat (52 - ?e)"
    unfolding eq by (rule roundTiesToEven_of_int)
  then have "toDouble ?x = of_int (int n * 2 ^ nat (52 - ?e)) * ulp ?x"
    using x0 by (simp add: toDouble_pos)
  also have "\<dots> = ?x * (2 powi (52 - ?e) * 2 powi (?e - 52))"
    unfolding u using k by (simp add: power_int_def)
  also have "\<dots> = ?x" by (simp add: pow2_add [symmetric])
  finally show ?thesis .
qed


text \<open>Small naturals are evaluated as the doubles they are.\<close>

lemma toDouble_code [code]:
  "toDouble x =
     (if 0 \<le> x \<and> x < 9007199254740992 \<and> x = of_int \<lfloor>x\<rfloor> then x
      else if x = 0 then 0
      else sgn x * (of_int (roundTiesToEven (\<bar>x\<bar> / ulp \<bar>x\<bar>)) * ulp \<bar>x\<bar>))"
proof (cases "0 \<le> x \<and> x < 9007199254740992 \<and> x = of_int \<lfloor>x\<rfloor>")
  case True
  then have f: "0 \<le> \<lfloor>x\<rfloor>" and x: "x = of_nat (nat \<lfloor>x\<rfloor>)" by simp_all
  from True have "of_int \<lfloor>x\<rfloor> < (of_int 9007199254740992 :: rat)" by simp
  then have "\<lfloor>x\<rfloor> < 9007199254740992" by (simp only: of_int_less_iff)
  with f have "nat \<lfloor>x\<rfloor> < 9007199254740992" by linarith
  then have "nat \<lfloor>x\<rfloor> < 2 ^ 53" by simp
  then have "toDouble (of_nat (nat \<lfloor>x\<rfloor>)) = of_nat (nat \<lfloor>x\<rfloor>)" by (rule toDouble_of_nat)
  with x True show ?thesis by simp
next
  case False
  then show ?thesis by (simp only: toDouble_def if_False)
qed

subsection \<open>The board\<close>

lemma squares_eq:
  "squares =
     [''a1'', ''a2'', ''a3'', ''a4'', ''a5'', ''a6'', ''a7'', ''a8'',
      ''b1'', ''b2'', ''b3'', ''b4'', ''b5'', ''b6'', ''b7'', ''b8'',
      ''c1'', ''c2'', ''c3'', ''c4'', ''c5'', ''c6'', ''c7'', ''c8'',
      ''d1'', ''d2'', ''d3'', ''d4'', ''d5'', ''d6'', ''d7'', ''d8'',
      ''e1'', ''e2'', ''e3'', ''e4'', ''e5'', ''e6'', ''e7'', ''e8'',
      ''f1'', ''f2'', ''f3'', ''f4'', ''f5'', ''f6'', ''f7'', ''f8'',
      ''g1'', ''g2'', ''g3'', ''g4'', ''g5'', ''g6'', ''g7'', ''g8'',
      ''h1'', ''h2'', ''h3'', ''h4'', ''h5'', ''h6'', ''h7'', ''h8'']"
  by code_simp

text \<open>From here on the board is evaluated from its value, not by building it again.\<close>

declare squares_eq [code]

subsection \<open>Single steps and runs of the machine\<close>

lemma initialiseNextRound_keeps:
  "initialiseNextRound rs ctx = Some ctx' \<Longrightarrow>
     score ctx' = score ctx \<and> incorrectCount ctx' = incorrectCount ctx"
  by (auto simp: initialiseNextRound_def split: list.splits option.splits sum.splits prod.splits)

lemma evaluateGuess_keeps:
  "evaluateGuess ctx = Some ctx' \<Longrightarrow>
     score ctx' = score ctx \<and> incorrectCount ctx' = incorrectCount ctx"
  by (auto simp: evaluateGuess_def split: option.splits)

lemma saveUserResponse_keeps:
  "saveUserResponse u ctx = Some ctx' \<Longrightarrow>
     score ctx' = score ctx \<and> incorrectCount ctx' = incorrectCount ctx"
  by (auto simp: saveUserResponse_def split: option.splits)

lemma step_keeps:
  "step rs (s, ctx) e = Some (s', ctx') \<Longrightarrow>
     score ctx' = score ctx \<and> incorrectCount ctx' = incorrectCount ctx"
  by (cases "(rs, (s, ctx), e)" rule: step.cases)
    (auto simp: decrementCountdown_def initialiseCountdown_def setupNextTrial_def
      clearCurrentGuess_def decrementGuessesRemainingInRound_def calculateAccuracyScoreAction_def
      bind_eq_Some_conv
      dest!: initialiseNextRound_keeps evaluateGuess_keeps saveUserResponse_keeps
      split: if_splits option.splits)

lemma step_not_countdown:
  "step rs (s, ctx) e = Some (s', ctx') \<Longrightarrow> s \<noteq> Countdown \<Longrightarrow> s' \<noteq> Countdown"
  by (cases "(rs, (s, ctx), e)" rule: step.cases) (auto split: if_splits option.splits)

lemma reachable_run: "reachable c \<Longrightarrow> run c es = Some c' \<Longrightarrow> reachable c'"
proof (induction es arbitrary: c)
  case Nil
  then show ?case by simp
next
  case (Cons x es)
  obtain e rs where x: "x = (e, rs)" by (cases x)
  from Cons.prems(2) x obtain c1 where c1: "step rs c e = Some c1" and r: "run c1 es = Some c'"
    by (auto split: option.splits)
  from Cons.prems(1) c1 have "reachable c1" by (rule reachable.step)
  with r show ?case by (rule Cons.IH[rotated])
qed

lemma start_enters_startingRound:
  "map_option fst (step sampleDraws (Idle, initialContext) Start) = Some (Playing StartingRound)"
  by code_simp

lemma silentSession_ends:
  "map_option fst (run (Idle, initialContext) silentSession) = Some GameOver"
  by code_simp

subsection \<open>Events a state does not declare\<close>

text \<open>
  \<^bold>\<open>C8.\<close> An event that the active state configuration does not declare leaves the
  state and the context as they are, and the step completes; in particular
  \<open>userResponse\<close> in \<open>idle\<close> changes nothing.
\<close>

theorem undeclared_event_ignored:
  "(\<not> declares s e \<longrightarrow> step rs (s, ctx) e = Some (s, ctx)) \<and>
   step rs (Idle, ctx) (UserResponseEvent response) = Some (Idle, ctx)"
  by (cases "(rs, (s, ctx), e)" rule: step.cases) auto

text \<open>A stray tick while a round is being started.\<close>

theorem undeclared_event_ignored_witness:
  "\<not> declares (Playing StartingRound) Tick \<and>
   step [] (Playing StartingRound, initialContext) Tick =
     Some (Playing StartingRound, initialContext)"
  using undeclared_event_ignored [of "Playing StartingRound" Tick "[]" initialContext]
  by simp

subsection \<open>Invariants of the reachable configurations\<close>

text \<open>
  \<^bold>\<open>C9.\<close> No reachable configuration is in \<open>countdown\<close>: \<open>start\<close> in \<open>idle\<close> enters
  \<open>playing\<close> (its initial state \<open>startingRound\<close>), and no step from another state ends
  in \<open>countdown\<close>.
\<close>

theorem countdown_never_active:
  "(reachable c \<longrightarrow> fst c \<noteq> Countdown) \<and>
   (step rs (Idle, ctx) Start = Some c' \<longrightarrow> fst c' = Playing StartingRound) \<and>
   (s \<noteq> Countdown \<and> step rs (s, ctx) e = Some c'' \<longrightarrow> fst c'' \<noteq> Countdown)"
proof (intro conjI impI)
  assume "reachable c"
  then show "fst c \<noteq> Countdown"
  proof (induction rule: reachable.induct)
    case initial
    show ?case by simp
  next
    case (step c rs e c')
    then show ?case
      using step_not_countdown [of rs "fst c" "snd c" e "fst c'" "snd c'"] by simp
  qed
next
  assume "step rs (Idle, ctx) Start = Some c'"
  then show "fst c' = Playing StartingRound" by auto
next
  assume "s \<noteq> Countdown \<and> step rs (s, ctx) e = Some c''"
  then show "fst c'' \<noteq> Countdown"
    using step_not_countdown [of rs s ctx e "fst c''" "snd c''"] by simp
qed

theorem countdown_never_active_witness:
  "\<exists>c'. step sampleDraws (Idle, initialContext) Start = Some c' \<and> reachable c' \<and>
        fst c' = Playing StartingRound \<and> fst c' \<noteq> Countdown"
proof -
  from start_enters_startingRound
  obtain c' where c': "step sampleDraws (Idle, initialContext) Start = Some c'"
    by auto
  have r: "reachable c'" by (rule reachable.step [OF reachable.initial c'])
  from countdown_never_active [of c' sampleDraws initialContext c' Idle Start c'] r c'
  show ?thesis by auto
qed

text \<open>
  \<^bold>\<open>C10.\<close> In every reachable configuration \<open>score\<close> and \<open>incorrectCount\<close> are \<open>0\<close>,
  their initial value: no step changes either field (\<open>trackIncorrectGuess\<close> is not an
  action of any transition).
\<close>

theorem score_and_incorrectCount_stay_zero:
  "(reachable c \<longrightarrow> score (snd c) = 0 \<and> incorrectCount (snd c) = 0) \<and>
   (step rs (s, ctx) e = Some (s', ctx') \<longrightarrow>
      score ctx' = score ctx \<and> incorrectCount ctx' = incorrectCount ctx)"
proof (intro conjI impI)
  assume "reachable c"
  then show "score (snd c) = 0"
  proof (induction rule: reachable.induct)
    case initial
    show ?case by (simp add: initialContext_def)
  next
    case (step c rs e c')
    then show ?case
      using step_keeps [of rs "fst c" "snd c" e "fst c'" "snd c'"] by simp
  qed
next
  assume "reachable c"
  then show "incorrectCount (snd c) = 0"
  proof (induction rule: reachable.induct)
    case initial
    show ?case by (simp add: initialContext_def)
  next
    case (step c rs e c')
    then show ?case
      using step_keeps [of rs "fst c" "snd c" e "fst c'" "snd c'"] by simp
  qed
next
  assume "step rs (s, ctx) e = Some (s', ctx')"
  then show "score ctx' = score ctx" by (simp add: step_keeps)
next
  assume "step rs (s, ctx) e = Some (s', ctx')"
  then show "incorrectCount ctx' = incorrectCount ctx" by (simp add: step_keeps)
qed

text \<open>At the end of a whole session, and across the step that starts one.\<close>

theorem score_and_incorrectCount_stay_zero_witness:
  "\<exists>c c'. run (Idle, initialContext) silentSession = Some c \<and> fst c = GameOver \<and>
          score (snd c) = 0 \<and> incorrectCount (snd c) = 0 \<and>
          step sampleDraws (Idle, initialContext) Start = Some c' \<and>
          score (snd c') = score initialContext \<and>
          incorrectCount (snd c') = incorrectCount initialContext"
proof -
  from silentSession_ends
  obtain c where c: "run (Idle, initialContext) silentSession = Some c" and g: "fst c = GameOver"
    by auto
  from start_enters_startingRound
  obtain c' where c': "step sampleDraws (Idle, initialContext) Start = Some c'"
    by auto
  have r: "reachable c" by (rule reachable_run [OF reachable.initial c])
  from score_and_incorrectCount_stay_zero
         [of c sampleDraws Idle initialContext Start "fst c'" "snd c'"] r c'
  have "score (snd c) = 0 \<and> incorrectCount (snd c) = 0 \<and>
        score (snd c') = score initialContext \<and>
        incorrectCount (snd c') = incorrectCount initialContext"
    by simp
  with c g c' show ?thesis by blast
qed

subsection \<open>The accuracy score\<close>

lemma fold_countTrial:
  "t + length ts < 2 ^ 53 \<Longrightarrow> c \<le> t \<Longrightarrow>
     fold countTrial ts (of_nat t, of_nat c) =
       (of_nat (t + length ts),
        of_nat (c + length (filter (\<lambda>t. outcome t = Some Hit \<or> outcome t = Some CorrectRejection) ts)))"
proof (induction ts arbitrary: t c)
  case Nil
  then show ?case by simp
next
  case (Cons x ts)
  from Cons.prems have t: "Suc t < 2 ^ 53" and c: "Suc c < 2 ^ 53" by simp_all
  have st: "toDouble (of_nat t + 1) = of_nat (Suc t)"
    using toDouble_of_nat [OF t] by (simp add: add.commute)
  have sc: "toDouble (of_nat c + 1) = of_nat (Suc c)"
    using toDouble_of_nat [OF c] by (simp add: add.commute)
  show ?case
  proof (cases "outcome x = Some Hit \<or> outcome x = Some CorrectRejection")
    case True
    then have "countTrial x (of_nat t, of_nat c) = (of_nat (Suc t), of_nat (Suc c))"
      by (simp only: countTrial_def prod.case st sc if_True)
    with True Cons.IH [of "Suc t" "Suc c"] Cons.prems show ?thesis by simp
  next
    case False
    then have "countTrial x (of_nat t, of_nat c) = (of_nat (Suc t), of_nat c)"
      by (simp only: countTrial_def prod.case st if_False)
    with False Cons.IH [of "Suc t" c] Cons.prems show ?thesis by simp
  qed
qed

lemma fold_rounds:
  "t + length (concat (map trials rds)) < 2 ^ 53 \<Longrightarrow> c \<le> t \<Longrightarrow>
     fold (\<lambda>rnd acc. fold countTrial (trials rnd) acc) rds (of_nat t, of_nat c) =
       (of_nat (t + length (concat (map trials rds))),
        of_nat (c + length (filter (\<lambda>t. outcome t = Some Hit \<or> outcome t = Some CorrectRejection)
                   (concat (map trials rds)))))"
proof (induction rds arbitrary: t c)
  case Nil
  then show ?case by simp
next
  case (Cons r rds)
  let ?good = "\<lambda>t. outcome t = Some Hit \<or> outcome t = Some CorrectRejection"
  from Cons.prems have 1: "t + length (trials r) < 2 ^ 53" by simp
  have 2: "c + length (filter ?good (trials r)) \<le> t + length (trials r)"
    using Cons.prems(2) length_filter_le [of ?good "trials r"] by linarith
  from Cons.prems have 3: "(t + length (trials r)) + length (concat (map trials rds)) < 2 ^ 53"
    by simp
  show ?case
    using Cons.IH [OF 3 2] fold_countTrial [OF 1 Cons.prems(2)] by (simp add: add.assoc)
qed

lemma countRounds_eq:
  "length (allTrials rd) < 2 ^ 53 \<Longrightarrow>
     countRounds rd = (of_nat (length (allTrials rd)), of_nat (length (correctTrials rd)))"
  using fold_rounds [of 0 "map snd rd" 0]
  by (simp add: countRounds_def allTrials_def correctTrials_def map_concat comp_def)

lemma correct_le_all: "length (correctTrials rd) \<le> length (allTrials rd)"
  by (simp add: correctTrials_def)

lemma no_classified_no_correct: "classifiedTrials rd = [] \<Longrightarrow> correctTrials rd = []"
  by (auto simp: classifiedTrials_def correctTrials_def filter_empty_conv)

lemma toDouble_1: "toDouble 1 = 1"
  using toDouble_of_nat [of 1] by simp

lemma toDouble_10000: "toDouble 10000 = 10000"
  using toDouble_of_nat [of 10000] by simp

lemma toDouble_100: "toDouble 100 = 100"
  using toDouble_of_nat [of 100] by simp

lemma floor_half: "\<lfloor>(1::rat) / 2\<rfloor> = 0"
  by linarith

lemma accuracyOfCounts_zero: "accuracyOfCounts (t, 0) = 0"
  by (simp add: mathRound_def floor_half)

text \<open>The arithmetic after the loops, for counts \<open>0 < c \<le> t < 2^53\<close>.\<close>

lemma accuracyOfCounts_bounds:
  assumes c: "0 < c" and ct: "c \<le> t" and t: "t < 2 ^ 53"
  shows "\<exists>k. accuracyOfCounts (of_nat t, of_nat c) = toDouble (of_int k / 100) \<and>
              0 \<le> k \<and> k \<le> 10000 \<and>
              \<bar>of_int k - 10000 * (of_nat c / of_nat t :: rat)\<bar> \<le> 1 / 2 + 1 / 10 ^ 11"
proof -
  let ?x = "of_nat c / of_nat t :: rat"
  let ?a = "toDouble ?x"
  let ?p = "toDouble (?a * 10000)"
  let ?k = "\<lfloor>?p + 1 / 2\<rfloor>"
  let ?eps = "(2::rat) powi (- 53)"
  from c ct have t0: "0 < t" by simp
  have tr: "(of_nat t :: rat) < 2 powi 53"
  proof -
    have "(of_nat t :: rat) < of_nat (2 ^ 53)" using t by (simp only: of_nat_less_iff)
    then show ?thesis by simp
  qed
  have x1: "?x \<le> 1" using ct t0 by simp
  have "1 / (2::rat) powi 53 \<le> 1 / of_nat t"
    using tr t0 by (intro divide_left_mono) (simp_all add: less_imp_le)
  also have "\<dots> \<le> ?x" using c t0 by (simp add: divide_right_mono)
  finally have xlo: "2 powi (- 53) \<le> ?x" by (simp add: power_int_minus_divide)
  have "(2::rat) powi (- 1022) \<le> 2 powi (- 53)" by (rule pow2_mono) simp
  then have xn: "2 powi (- 1022) \<le> ?x" using xlo by (rule order_trans)
  have x0: "0 < ?x" using c t0 by simp
  \<comment> \<open>the quotient\<close>
  have a1: "?a \<le> 1" using xn x1 toDouble_1 by (rule toDouble_le_double)
  have "(2::rat) powi (- 1022) \<le> 2 powi exponentOf ?x"
    using exponentOf_ge [OF xn] by (rule pow2_mono)
  also have "\<dots> \<le> ?a" using xn by (rule toDouble_ge_pow2)
  finally have an: "2 powi (- 1022) \<le> ?a" .
  then have a0: "0 < ?a" using pow2_pos [of "- 1022"] by (rule less_le_trans [rotated])
  have "\<bar>?a - ?x\<bar> \<le> ?x * ?eps" using xn by (rule toDouble_error)
  also have "\<dots> \<le> 1 * ?eps" using x1 by (intro mult_right_mono) (simp_all add: less_imp_le)
  finally have ea: "\<bar>?a - ?x\<bar> \<le> ?eps" by simp
  \<comment> \<open>the product\<close>
  have y1: "?a * 10000 \<le> 10000" using a1 by simp
  have "?a \<le> ?a * 10000" using a0 by simp
  with an have yn: "2 powi (- 1022) \<le> ?a * 10000" by (rule order_trans)
  have p1: "?p \<le> 10000" using yn y1 toDouble_10000 by (rule toDouble_le_double)
  have p0: "0 \<le> ?p" using a0 by (intro toDouble_nonneg) simp
  have "\<bar>?p - ?a * 10000\<bar> \<le> ?a * 10000 * ?eps" using yn by (rule toDouble_error)
  also have "\<dots> \<le> 10000 * ?eps" using y1 by (intro mult_right_mono) (simp_all add: less_imp_le)
  finally have ep: "\<bar>?p - ?a * 10000\<bar> \<le> 10000 * ?eps" .
  \<comment> \<open>the rounding to an integer\<close>
  have k0: "0 \<le> ?k" using p0 by simp
  have "?p + 1 / 2 < of_int 10001" using p1 by simp
  then have "?k < 10001" by (simp only: floor_less_iff)
  then have k1: "?k \<le> 10000" by simp
  have ek: "\<bar>of_int ?k - ?p\<bar> \<le> 1 / 2"
  proof -
    have "of_int ?k \<le> ?p + 1 / 2" "?p + 1 / 2 < of_int ?k + 1" by linarith+
    then show ?thesis by linarith
  qed
  have ex: "\<bar>?a * 10000 - 10000 * ?x\<bar> \<le> 10000 * ?eps" using ea by linarith
  have "\<bar>of_int ?k - 10000 * ?x\<bar> \<le>
          \<bar>of_int ?k - ?p\<bar> + \<bar>?p - ?a * 10000\<bar> + \<bar>?a * 10000 - 10000 * ?x\<bar>"
    by linarith
  also have "\<dots> \<le> 1 / 2 + 10000 * ?eps + 10000 * ?eps" using ek ep ex by linarith
  also have "\<dots> \<le> 1 / 2 + 1 / 10 ^ 11" by (simp add: power_int_minus_divide)
  finally have e: "\<bar>of_int ?k - 10000 * ?x\<bar> \<le> 1 / 2 + 1 / 10 ^ 11" .
  have "accuracyOfCounts (of_nat t, of_nat c) = toDouble (of_int ?k / 100)"
    using t0 by (simp add: Let_def mathRound_def)
  with k0 k1 e show ?thesis by blast
qed

lemma hundredths_bounds:
  assumes "0 \<le> k" "k \<le> 10000"
  shows "0 \<le> toDouble (of_int k / 100) \<and> toDouble (of_int k / 100) \<le> 100"
proof (cases "k = 0")
  case True
  then show ?thesis by simp
next
  case False
  with assms have k: "1 \<le> k" by simp
  then have "(of_int 1 :: rat) \<le> of_int k" by (simp only: of_int_le_iff)
  then have "(1::rat) / 100 \<le> of_int k / 100" by simp
  moreover have "(2::rat) powi (- 7) \<le> 1 / 100" by (simp add: power_int_minus_divide)
  moreover have "(2::rat) powi (- 1022) \<le> 2 powi (- 7)" by (rule pow2_mono) simp
  ultimately have n: "2 powi (- 1022) \<le> (of_int k :: rat) / 100" by linarith
  have "(of_int k :: rat) \<le> of_int 10000" using assms(2) by (simp only: of_int_le_iff)
  then have h: "(of_int k :: rat) / 100 \<le> 100" by simp
  have "0 \<le> toDouble (of_int k / 100)" using assms(1) by (intro toDouble_nonneg) simp
  moreover have "toDouble (of_int k / 100) \<le> 100" using n h toDouble_100 by (rule toDouble_le_double)
  ultimately show ?thesis by simp
qed


text \<open>
  \<^bold>\<open>C3 (as amended).\<close> For fewer than \<open>2^53\<close> trial records \<open>calculateAccuracyScore\<close> returns
  the double nearest to \<open>k / 100\<close> for an integer \<open>k\<close> from 0 to 10000 that lies within
  \<open>1/2 + 10^-11\<close> of 10000 times the number of records with outcome hit or correct
  rejection divided by the number of all trial records (with or without an outcome):
  the percentage rounded to two decimal places, up to the rounding of the quotient and
  of the product in doubles. It returns 0 when no trial is classified, and its result
  lies between 0 and 100.
\<close>

theorem calculateAccuracyScore_in_doubles:
  assumes "length (allTrials rd) < 2 ^ 53"
  shows "(\<exists>k. calculateAccuracyScore rd = toDouble (of_int k / 100) \<and> 0 \<le> k \<and> k \<le> 10000 \<and>
              (allTrials rd \<noteq> [] \<longrightarrow>
                 \<bar>of_int k -
                  10000 * (of_nat (length (correctTrials rd)) /
                           of_nat (length (allTrials rd)) :: rat)\<bar>
                 \<le> 1 / 2 + 1 / 10 ^ 11)) \<and>
         (classifiedTrials rd = [] \<longrightarrow> calculateAccuracyScore rd = 0) \<and>
         0 \<le> calculateAccuracyScore rd \<and> calculateAccuracyScore rd \<le> 100"
proof -
  let ?t = "length (allTrials rd)" and ?c = "length (correctTrials rd)"
  have s: "calculateAccuracyScore rd = accuracyOfCounts (of_nat ?t, of_nat ?c)"
    using assms by (simp add: calculateAccuracyScore_def countRounds_eq)
  have z: "?c = 0 \<Longrightarrow> calculateAccuracyScore rd = 0"
    unfolding s using accuracyOfCounts_zero [of "of_nat ?t"] by simp
  have k: "\<exists>k. calculateAccuracyScore rd = toDouble (of_int k / 100) \<and> 0 \<le> k \<and> k \<le> 10000 \<and>
              (allTrials rd \<noteq> [] \<longrightarrow>
                 \<bar>of_int k - 10000 * (of_nat ?c / of_nat ?t :: rat)\<bar> \<le> 1 / 2 + 1 / 10 ^ 11)"
  proof (cases "?c = 0")
    case True
    with z have "calculateAccuracyScore rd = toDouble (of_int 0 / 100)" by simp
    moreover have "\<bar>of_int 0 - 10000 * (of_nat ?c / of_nat ?t :: rat)\<bar> \<le> 1 / 2 + 1 / 10 ^ 11"
      using True by simp
    ultimately show ?thesis by (intro exI [of _ 0]) simp
  next
    case False
    then have "0 < ?c" by simp
    from accuracyOfCounts_bounds [OF this correct_le_all assms] s show ?thesis by auto
  qed
  then obtain k where "calculateAccuracyScore rd = toDouble (of_int k / 100)" "0 \<le> k" "k \<le> 10000"
    by blast
  with hundredths_bounds [of k]
  have b: "0 \<le> calculateAccuracyScore rd \<and> calculateAccuracyScore rd \<le> 100" by simp
  have "classifiedTrials rd = [] \<longrightarrow> calculateAccuracyScore rd = 0"
    using z no_classified_no_correct [of rd] by simp
  with k b show ?thesis by simp
qed

text \<open>
  The contract's example, five classified trials of which four count as correct
  (\<open>k = 8000\<close>), and a round in which no trial is classified.
\<close>

theorem calculateAccuracyScore_in_doubles_witness:
  "length (allTrials fiveClassified) < 2 ^ 53 \<and>
   calculateAccuracyScore fiveClassified = 80 \<and>
   0 \<le> calculateAccuracyScore fiveClassified \<and> calculateAccuracyScore fiveClassified \<le> 100 \<and>
   length (allTrials noneClassified) < 2 ^ 53 \<and> classifiedTrials noneClassified = [] \<and>
   calculateAccuracyScore noneClassified = 0"
proof -
  have f: "length (allTrials fiveClassified) < 2 ^ 53"
    by (simp add: allTrials_def fiveClassified_def)
  have n: "length (allTrials noneClassified) < 2 ^ 53"
    by (simp add: allTrials_def noneClassified_def)
  have c: "classifiedTrials noneClassified = []"
    by (simp add: classifiedTrials_def allTrials_def noneClassified_def)
  have e: "calculateAccuracyScore fiveClassified = 80" by code_simp
  from calculateAccuracyScore_in_doubles [OF f] calculateAccuracyScore_in_doubles [OF n] c e f n
  show ?thesis by simp
qed



lemma manyClassified_counts:
  "length (allTrials manyClassified) = 800 \<and> length (correctTrials manyClassified) = 251 \<and>
   length (classifiedTrials manyClassified) = 800"
  by (simp add: allTrials_def correctTrials_def classifiedTrials_def manyClassified_def)

lemma accuracyOfCounts_251_800: "accuracyOfCounts (800, 251) = toDouble (3137 / 100)"
  by code_simp

lemma roundToTwoPlaces_251_800: "roundToTwoPlaces (100 * (251 / 800)) = 3138 / 100"
  by code_simp

lemma toDouble_3137: "toDouble (3137 / 100) < 3138 / 100 - 1 / 200"
  by code_simp

lemma small_examples:
  "calculateAccuracyScore oneOfTwoClassified = 50 \<and>
   accuracyOverClassified oneOfTwoClassified = 100"
  by code_simp

text \<open>
  \<^bold>\<open>C3 (as stated)\<close> divides by the number of classified trials and rounds to two
  decimal places. With one record of two classified, and that one a correct rejection,
  the function returns 50 where the stated quotient is 100. With 251 hits among 800
  classified trials the percentage is 31.375 and its rounding 31.38; the function
  returns the double nearest to 31.37, the product in doubles lying just below 3137.5.
\<close>

theorem calculateAccuracyScore_counterexample:
  "calculateAccuracyScore oneOfTwoClassified = 50 \<and>
   accuracyOverClassified oneOfTwoClassified = 100 \<and>
   calculateAccuracyScore manyClassified = toDouble (3137 / 100) \<and>
   accuracyOverClassified manyClassified = 3138 / 100 \<and>
   toDouble (3137 / 100) < 3138 / 100 - 1 / 200"
proof -
  have "length (allTrials manyClassified) < 2 ^ 53" using manyClassified_counts by simp
  then have "countRounds manyClassified = (of_nat 800, of_nat 251)"
    using manyClassified_counts by (simp only: countRounds_eq)
  then have m: "calculateAccuracyScore manyClassified = toDouble (3137 / 100)"
    using accuracyOfCounts_251_800 by (simp add: calculateAccuracyScore_def)
  have "classifiedTrials manyClassified \<noteq> []" using manyClassified_counts by auto
  then have s: "accuracyOverClassified manyClassified = 3138 / 100"
    using manyClassified_counts roundToTwoPlaces_251_800
    by (simp add: accuracyOverClassified_def)
  from small_examples m s toDouble_3137 show ?thesis by simp
qed


subsection \<open>Restart\<close>

text \<open>
  \<^bold>\<open>C5 (what the machine does instead).\<close> \<open>restart\<close> in \<open>gameOver\<close> leads to \<open>idle\<close> with
  the context as the session left it: round number 4, the data of its four rounds and
  its accuracy score, where the initial context has round number 0, no round and no
  score. The session started next takes round number 5, so the tick that closes its
  first round ends it, and its score is taken over the rounds of both sessions.
\<close>

theorem restart_keeps_round_number_and_data:
  "map_option (\<lambda>c. (fst c, currentRound (snd c), map fst (roundData (snd c)), accuracyScore (snd c)))
     (run (Idle, initialContext) silentSession) =
     Some (GameOver, 4, [1, 2, 3, 4], Some (toDouble (3333 / 100))) \<and>
   map_option (\<lambda>c. (fst c, currentRound (snd c), map fst (roundData (snd c)), accuracyScore (snd c)))
     (run (Idle, initialContext) (silentSession @ [(Restart, [])])) =
     Some (Idle, 4, [1, 2, 3, 4], Some (toDouble (3333 / 100))) \<and>
   map_option (\<lambda>c. (fst c, currentRound (snd c), map fst (roundData (snd c)), accuracyScore (snd c)))
     (run (Idle, initialContext) secondSession) =
     Some (GameOver, 5, [1, 2, 3, 4, 5], Some (toDouble (3333 / 100))) \<and>
   (currentRound initialContext, roundData initialContext, accuracyScore initialContext) =
     (0, [], None)"
  by code_simp


subsection \<open>Knight geometry\<close>

lemma knight_on_every_square:
  "\<forall>origin \<in> set squares.
     (case getReachablePositions Knight origin of
        None \<Rightarrow> False
      | Some R \<Rightarrow> distinct R \<and> set R = set (knightSquares origin))"
  by code_simp

lemma knight_from_d4:
  "getReachablePositions Knight ''d4'' =
     Some [''b3'', ''b5'', ''c2'', ''c6'', ''e2'', ''e6'', ''f3'', ''f5'']"
  by code_simp

lemma knightSquares_a1: "knightSquares ''a1'' = [''b3'', ''c2'']"
  by code_simp

text \<open>
  \<^bold>\<open>C7.\<close> From every square of the board the knight's reachable positions are, without
  repetition, exactly the squares at the eight knight offsets that lie on the board;
  from \<open>d4\<close> they are \<open>b3, b5, c2, c6, e2, e6, f3, f5\<close>.
\<close>

theorem knight_reachable_exact:
  "(origin \<in> set squares \<longrightarrow>
      (\<exists>R. getReachablePositions Knight origin = Some R \<and> distinct R \<and>
           set R = set (knightSquares origin))) \<and>
   (\<exists>R. getReachablePositions Knight ''d4'' = Some R \<and> distinct R \<and>
        set R = {''b3'', ''b5'', ''c2'', ''c6'', ''e2'', ''e6'', ''f3'', ''f5''})"
proof (intro conjI impI)
  assume "origin \<in> set squares"
  with knight_on_every_square
  have "case getReachablePositions Knight origin of
          None \<Rightarrow> False
        | Some R \<Rightarrow> distinct R \<and> set R = set (knightSquares origin)"
    by (rule bspec)
  then show "\<exists>R. getReachablePositions Knight origin = Some R \<and> distinct R \<and>
                 set R = set (knightSquares origin)"
    by (cases "getReachablePositions Knight origin") simp_all
next
  show "\<exists>R. getReachablePositions Knight ''d4'' = Some R \<and> distinct R \<and>
            set R = {''b3'', ''b5'', ''c2'', ''c6'', ''e2'', ''e6'', ''f3'', ''f5''}"
    unfolding knight_from_d4 by simp
qed

text \<open>From the corner \<open>a1\<close> two of the eight offsets stay on the board.\<close>

theorem knight_reachable_exact_witness:
  "''a1'' \<in> set squares \<and>
   (\<exists>R. getReachablePositions Knight ''a1'' = Some R \<and> distinct R \<and> set R = {''b3'', ''c2''})"
proof -
  have a: "''a1'' \<in> set squares" by (simp add: squares_eq)
  with knight_reachable_exact [of "''a1''"] show ?thesis
    by (simp add: knightSquares_a1)
qed

subsection \<open>Round generation\<close>

text \<open>The loop's equation is unfolded by hand, one iteration at a time.\<close>

declare selectLoop.simps [simp del]

lemma jsIndex_Some: "jsIndex xs i = Some x \<Longrightarrow> 0 \<le> i \<and> nat i < length xs \<and> x = xs ! nat i"
  by (auto simp: jsIndex_def split: if_splits)

lemma jsIndex_int: "jsIndex xs (int k) = Some x \<Longrightarrow> k < length xs \<and> x = xs ! k"
  by (auto simp: jsIndex_def split: if_splits)

lemma jsIndex_in_set: "jsIndex xs i = Some x \<Longrightarrow> x \<in> set xs"
  by (auto dest: jsIndex_Some)

lemma getRandomArrayElement_in_set: "getRandomArrayElement xs r = Some x \<Longrightarrow> x \<in> set xs"
  by (auto simp: getRandomArrayElement_def dest: jsIndex_in_set)

lemma getRandomSquare_eq: "getRandomSquare = getRandomArrayElement squares"
  by (simp add: fun_eq_iff getRandomSquare_def getRandomArrayElement_def)

text \<open>What a returned round looks like.\<close>

lemma drawUntilNew_new:
  "drawUntilNew draw sel rs = Inr (p, rest) \<Longrightarrow> p \<notin> set sel \<and> (\<exists>r. draw r = Some p)"
  by (induction rs) (auto split: option.splits if_splits)

lemma selectLoop_result:
  "selectLoop R k n i sel rs = Inr (out, rest) \<Longrightarrow>
     distinct sel \<Longrightarrow> set sel \<subseteq> set squares \<Longrightarrow> set R \<subseteq> set squares \<Longrightarrow>
     length sel = i \<Longrightarrow> i \<le> n \<Longrightarrow>
     distinct out \<and> set out \<subseteq> set squares \<and> length out = n"
proof (induction R k n i sel rs rule: selectLoop.induct)
  case (1 R k n i sel rs)
  show ?case
  proof (cases "i < n")
    case False
    with "1.prems" show ?thesis by (simp add: selectLoop.simps)
  next
    case True
    let ?d = "if i < k then drawUntilNew (getRandomArrayElement R) sel rs
              else drawUntilNew getRandomSquare sel rs"
    from "1.prems"(1) True obtain p rs' where d: "?d = Inr (p, rs')"
      and rec: "selectLoop R k n (i + 1) (sel @ [p]) rs' = Inr (out, rest)"
      by (subst (asm) selectLoop.simps) (auto split: sum.splits)
    have new: "p \<notin> set sel" using d drawUntilNew_new by (auto split: if_splits)
    have "p \<in> set squares"
    proof (cases "i < k")
      case True
      with d obtain r where "getRandomArrayElement R r = Some p"
        using drawUntilNew_new by fastforce
      then show ?thesis using "1.prems"(4) getRandomArrayElement_in_set by fastforce
    next
      case False
      with d obtain r where "getRandomSquare r = Some p"
        using drawUntilNew_new by fastforce
      then show ?thesis using getRandomArrayElement_in_set by (fastforce simp: getRandomSquare_eq)
    qed
    with new "1.prems" True show ?thesis
      using "1.IH" [OF True d refl rec] by simp
  qed
qed

lemma shuffleLoop_result:
  "shuffleLoop i a rs = Inr (a', rest) \<Longrightarrow>
     length a' = length a \<and> set a' = set a \<and> (distinct a' \<longleftrightarrow> distinct a)"
proof (induction i arbitrary: a rs)
  case 0
  then show ?case by simp
next
  case (Suc i)
  from Suc.prems obtain r rs' where rs: "rs = r # rs'" by (cases rs) auto
  let ?j = "\<lfloor>r * of_nat (Suc i + 1)\<rfloor>"
  from Suc.prems rs obtain x y where x: "jsIndex a (int (Suc i)) = Some x"
    and y: "jsIndex a ?j = Some y"
    and rec: "shuffleLoop i (a[Suc i := y, nat ?j := x]) rs' = Inr (a', rest)"
    by (auto simp: Let_def split: option.splits)
  from x have i: "Suc i < length a" "x = a ! Suc i" using jsIndex_int [of a "Suc i" x] by auto
  from y have j: "nat ?j < length a" "y = a ! nat ?j" by (auto dest: jsIndex_Some)
  from Suc.IH [OF rec] i j show ?case
    by (simp add: set_swap distinct_swap)
qed

lemma generatePositionsForRound_result:
  assumes "generatePositionsForRound piece position n rs = Inr (out, rest)"
    and "getReachablePositions piece position = Some R" and "set R \<subseteq> set squares"
  shows "length (positions out) = n \<and> distinct (positions out) \<and>
         set (positions out) \<subseteq> set squares"
proof -
  from assms(1,2) obtain r rs1 sel rs2 where "rs = r # rs1"
    and sel: "selectLoop R (targetCount n r) n 0 [] rs1 = Inr (sel, rs2)"
    and sh: "shuffleArray sel rs2 = Inr (positions out, rest)"
    by (auto simp: generatePositionsForRound_def Let_def split: list.splits sum.splits)
  from selectLoop_result [OF sel] assms(3)
  have "distinct sel \<and> set sel \<subseteq> set squares \<and> length sel = n" by simp
  with shuffleLoop_result [OF sh [unfolded shuffleArray_def]] show ?thesis by simp
qed

text \<open>Which draws make the loops return.\<close>

lemma validDraws_simps [simp]:
  "validDraws []"
  "validDraws (r # rs) \<longleftrightarrow> 0 \<le> r \<and> r < 1 \<and> validDraws rs"
  "validDraws (rs @ rs') \<longleftrightarrow> validDraws rs \<and> validDraws rs'"
  by (auto simp: validDraws_def)

lemma floor_draw_in_range:
  fixes r :: rat
  assumes "0 \<le> r" "r < 1" "0 < n"
  shows "0 \<le> \<lfloor>r * of_nat n\<rfloor> \<and> \<lfloor>r * of_nat n\<rfloor> < int n"
proof -
  have "0 \<le> r * of_nat n" using assms by simp
  then have lo: "0 \<le> \<lfloor>r * of_nat n\<rfloor>" by simp
  have "r * of_nat n < 1 * of_nat n" using assms by (intro mult_strict_right_mono) simp_all
  then have "r * of_nat n < of_int (int n)" by simp
  then have "\<lfloor>r * of_nat n\<rfloor> < int n" by (simp only: floor_less_iff)
  with lo show ?thesis by simp
qed

lemma getRandomArrayElement_total:
  assumes "0 \<le> r" "r < 1" "xs \<noteq> []"
  shows "\<exists>p. getRandomArrayElement xs r = Some p"
  using floor_draw_in_range [OF assms(1,2), of "length xs"] assms(3)
  by (simp add: getRandomArrayElement_def jsIndex_def)

lemma getRandomArrayElement_onto:
  assumes "p \<in> set xs"
  shows "\<exists>r. 0 \<le> r \<and> r < 1 \<and> getRandomArrayElement xs r = Some p"
proof -
  from assms obtain k where k: "k < length xs" "xs ! k = p" by (auto simp: in_set_conv_nth)
  let ?n = "length xs"
  let ?r = "of_nat k / of_nat ?n :: rat"
  from k(1) have n: "0 < ?n" by linarith
  then have "?r * of_nat ?n = of_nat k" by simp
  then have fl: "\<lfloor>?r * of_nat ?n\<rfloor> = int k" by simp
  have "0 \<le> ?r" by simp
  moreover have "?r < 1" using k n by simp
  moreover have "getRandomArrayElement xs ?r = Some p"
    unfolding getRandomArrayElement_def fl using k by (simp add: jsIndex_def)
  ultimately show ?thesis by blast
qed

text \<open>
  Whatever has been drawn, some further draws make the retry loop return, and it then
  hands on what it did not consume.
\<close>

lemma drawUntilNew_can_return:
  assumes total: "\<And>r. 0 \<le> r \<Longrightarrow> r < 1 \<Longrightarrow> \<exists>p. draw r = Some p"
    and fresh: "0 \<le> r0" "r0 < 1" "draw r0 = Some p0" "p0 \<notin> set sel"
    and "validDraws rs"
  shows "\<exists>rs' p rest. validDraws rs' \<and> validDraws rest \<and>
           (\<forall>ext. drawUntilNew draw sel (rs @ rs' @ ext) = Inr (p, rest @ ext))"
  using \<open>validDraws rs\<close>
proof (induction rs)
  case Nil
  have "\<forall>ext. drawUntilNew draw sel ([] @ [r0] @ ext) = Inr (p0, [] @ ext)"
    using fresh by simp
  moreover have "validDraws [r0]" using fresh by simp
  ultimately show ?case by (metis validDraws_simps(1))
next
  case (Cons x xs)
  then have x: "0 \<le> x" "x < 1" and xs: "validDraws xs" by simp_all
  from total [OF x] obtain q where q: "draw x = Some q" by blast
  show ?case
  proof (cases "q \<in> set sel")
    case True
    from Cons.IH [OF xs] obtain rs' p rest where v: "validDraws rs'" "validDraws rest"
      and r: "\<forall>ext. drawUntilNew draw sel (xs @ rs' @ ext) = Inr (p, rest @ ext)"
      by blast
    from r q True have "\<forall>ext. drawUntilNew draw sel ((x # xs) @ rs' @ ext) = Inr (p, rest @ ext)"
      by simp
    with v show ?thesis by blast
  next
    case False
    with q have "\<forall>ext. drawUntilNew draw sel ((x # xs) @ [] @ ext) = Inr (q, xs @ ext)"
      by simp
    with xs show ?thesis by (metis validDraws_simps(1))
  qed
qed

lemma fresh_element:
  assumes "length sel < card (set xs)"
  shows "\<exists>p. p \<in> set xs \<and> p \<notin> set sel"
proof (rule ccontr)
  assume "\<not> ?thesis"
  then have "set xs \<subseteq> set sel" by blast
  then have "card (set xs) \<le> card (set sel)" by (simp add: card_mono)
  also have "\<dots> \<le> length sel" by (rule card_length)
  finally show False using assms by simp
qed

lemma drawUntilNew_array_can_return:
  assumes "length sel < card (set xs)" "validDraws rs"
  shows "\<exists>rs' p rest. validDraws rs' \<and> validDraws rest \<and>
           (\<forall>ext. drawUntilNew (getRandomArrayElement xs) sel (rs @ rs' @ ext) =
                    Inr (p, rest @ ext))"
proof -
  from fresh_element [OF assms(1)] obtain p0 where p0: "p0 \<in> set xs" "p0 \<notin> set sel" by blast
  then have ne: "xs \<noteq> []" by auto
  from getRandomArrayElement_onto [OF p0(1)] obtain r0
    where r0: "0 \<le> r0" "r0 < 1" "getRandomArrayElement xs r0 = Some p0" by blast
  show ?thesis
    by (rule drawUntilNew_can_return
          [where draw = "getRandomArrayElement xs", OF _ r0 p0(2) assms(2)])
      (rule getRandomArrayElement_total [OF _ _ ne])
qed

lemma selectLoop_can_return:
  assumes "k \<le> card (set R)" "n \<le> card (set squares)"
  shows "length sel = i \<Longrightarrow> i \<le> n \<Longrightarrow> validDraws rs \<Longrightarrow>
     \<exists>rs' out rest. validDraws rs' \<and> validDraws rest \<and>
        (\<forall>ext. selectLoop R k n i sel (rs @ rs' @ ext) = Inr (out, rest @ ext))"
proof (induction "n - i" arbitrary: i sel rs)
  case 0
  then have "\<forall>ext. selectLoop R k n i sel (rs @ [] @ ext) = Inr (sel, rs @ ext)"
    by (simp add: selectLoop.simps)
  with 0 show ?case by (metis validDraws_simps(1))
next
  case (Suc m)
  then have lt: "i < n" by simp
  let ?draw = "if i < k then getRandomArrayElement R else getRandomSquare"
  have "\<exists>rs' p rest. validDraws rs' \<and> validDraws rest \<and>
          (\<forall>ext. drawUntilNew ?draw sel (rs @ rs' @ ext) = Inr (p, rest @ ext))"
  proof (cases "i < k")
    case True
    with assms(1) Suc.prems(1) have "length sel < card (set R)" by simp
    from drawUntilNew_array_can_return [OF this Suc.prems(3)] True show ?thesis by simp
  next
    case False
    from lt assms(2) Suc.prems(1) have "length sel < card (set squares)" by simp
    from drawUntilNew_array_can_return [OF this Suc.prems(3)] False show ?thesis
      by (simp add: getRandomSquare_eq)
  qed
  then obtain rs1 p rest1 where v1: "validDraws rs1" "validDraws rest1"
    and d: "\<forall>ext. drawUntilNew ?draw sel (rs @ rs1 @ ext) = Inr (p, rest1 @ ext)"
    by blast
  have "m = n - (i + 1)" using Suc.hyps(2) by simp
  from Suc.hyps(1) [OF this, of "sel @ [p]" rest1] Suc.prems lt v1
  obtain rs2 out rest where v2: "validDraws rs2" "validDraws rest"
    and s: "\<forall>ext. selectLoop R k n (i + 1) (sel @ [p]) (rest1 @ rs2 @ ext) = Inr (out, rest @ ext)"
    by auto
  have "selectLoop R k n i sel (rs @ (rs1 @ rs2) @ ext) = Inr (out, rest @ ext)" for ext
  proof -
    have "drawUntilNew ?draw sel (rs @ rs1 @ rs2 @ ext) = Inr (p, rest1 @ rs2 @ ext)"
      using d by blast
    with lt s show ?thesis
      by (subst selectLoop.simps) (auto split: if_splits)
  qed
  with v1 v2 show ?case by (metis validDraws_simps(3))
qed

lemma jsIndex_int_eq: "k < length xs \<Longrightarrow> jsIndex xs (int k) = Some (xs ! k)"
  by (simp add: jsIndex_def)

lemma shuffleLoop_step:
  assumes "Suc i < length a" "0 \<le> j" "nat j < length a" "j = \<lfloor>r * of_nat (Suc i + 1)\<rfloor>"
  shows "shuffleLoop (Suc i) a (r # rs) =
           shuffleLoop i (a[Suc i := a ! nat j, nat j := a ! Suc i]) rs"
proof -
  have "jsIndex a (int (Suc i)) = Some (a ! Suc i)" using assms(1) by (rule jsIndex_int_eq)
  moreover have "jsIndex a j = Some (a ! nat j)" using assms(2,3) by (simp add: jsIndex_def)
  ultimately show ?thesis
    unfolding shuffleLoop.simps Let_def assms(4) [symmetric] by simp
qed

lemma shuffleLoop_can_return:
  "i < length a \<or> i = 0 \<Longrightarrow> validDraws rs \<Longrightarrow>
     \<exists>rs' a' rest. validDraws rs' \<and> shuffleLoop i a (rs @ rs') = Inr (a', rest)"
proof (induction i arbitrary: a rs)
  case 0
  have "shuffleLoop 0 a (rs @ []) = Inr (a, rs)" by simp
  then show ?case by (metis validDraws_simps(1))
next
  case (Suc i)
  then have i: "Suc i < length a" by simp
  show ?case
  proof (cases rs)
    case Nil
    let ?a = "a[Suc i := a ! 0, 0 := a ! Suc i]"
    from i have "i < length ?a \<or> i = 0" by simp
    from Suc.IH [OF this, of "[]"] obtain rs' a' rest where v: "validDraws rs'"
      and r: "shuffleLoop i ?a rs' = Inr (a', rest)" by auto
    from i have z: "nat 0 < length a" by (cases a) simp_all
    have "(0::int) = \<lfloor>0 * of_nat (Suc i + 1)\<rfloor>" by simp
    from shuffleLoop_step [OF i order_refl z this, of rs']
    have "shuffleLoop (Suc i) a ([] @ 0 # rs') = shuffleLoop i ?a rs'"
      by (simp only: append_Nil nat_0)
    with r v Nil show ?thesis by (metis validDraws_simps(1,2) zero_le zero_less_one order_refl)
  next
    case (Cons x xs)
    with Suc.prems have x: "0 \<le> x" "x < 1" and xs: "validDraws xs" by simp_all
    let ?j = "\<lfloor>x * of_nat (Suc i + 1)\<rfloor>"
    from floor_draw_in_range [OF x, of "Suc i + 1"] have j: "0 \<le> ?j" "?j < int (Suc i + 1)"
      by simp_all
    with i have jl: "nat ?j < length a" by linarith
    let ?a = "a[Suc i := a ! nat ?j, nat ?j := a ! Suc i]"
    from i have "i < length ?a \<or> i = 0" by simp
    from Suc.IH [OF this xs] obtain rs' a' rest where v: "validDraws rs'"
      and r: "shuffleLoop i ?a (xs @ rs') = Inr (a', rest)" by auto
    have "shuffleLoop (Suc i) a ((x # xs) @ rs') = shuffleLoop i ?a (xs @ rs')"
      using shuffleLoop_step [OF i j(1) jl refl] by simp
    with r v Cons show ?thesis by metis
  qed
qed

lemma reachable_on_every_square:
  "\<forall>piece \<in> set [Knight, Bishop]. \<forall>origin \<in> set squares.
     (case getReachablePositions piece origin of
        None \<Rightarrow> False
      | Some R \<Rightarrow> set R \<subseteq> set squares \<and> length R \<le> 13)"
  by code_simp

lemma reachable_on_square:
  assumes "position \<in> set squares" "getReachablePositions piece position = Some R"
  shows "set R \<subseteq> set squares \<and> length R \<le> 13"
proof -
  have "piece \<in> set [Knight, Bishop]" by (cases piece) simp_all
  with reachable_on_every_square assms(1)
  have "case getReachablePositions piece position of
          None \<Rightarrow> False
        | Some R \<Rightarrow> set R \<subseteq> set squares \<and> length R \<le> 13"
    by blast
  with assms(2) show ?thesis by simp
qed

lemma distinct_squares: "distinct squares"
  by code_simp

lemma card_squares: "card (set squares) = 64"
  using distinct_card [OF distinct_squares] by (simp add: squares_eq)

lemma floor_of_share:
  fixes q :: rat
  assumes "2 / 5 \<le> q" "65 \<le> n"
  shows "13 < nat \<lfloor>of_nat n * q\<rfloor>"
proof -
  have "(of_nat 65 :: rat) \<le> of_nat n" using assms(2) by (simp only: of_nat_le_iff)
  then have n: "(65::rat) \<le> of_nat n" by simp
  have "(26::rat) = 65 * (2 / 5)" by simp
  also have "\<dots> \<le> of_nat n * q" using n assms(1) by (intro mult_mono) simp_all
  finally have "of_int 26 \<le> of_nat n * q" by simp
  then have "26 \<le> \<lfloor>of_nat n * q\<rfloor>" by (simp only: le_floor_iff)
  then show ?thesis by linarith
qed

lemma targetCount_large: "64 < n \<Longrightarrow> 13 < targetCount n r"
  using floor_of_share [of "6 / 10" n] floor_of_share [of "4 / 10" n]
  by (simp add: targetCount_def Let_def)

text \<open>
  \<^bold>\<open>C6.\<close> Let the origin be a square of the board and let its reachable positions
  have at least \<open>\<lfloor>roundLength * fraction\<rfloor>\<close> distinct elements, the fraction (0.6 or 0.4)
  being the one the first draw \<open>r\<close> selects. Then \<open>generatePositionsForRound\<close> returns:
  whatever \<^verbatim>\<open>Math.random()\<close> has produced so far, there are further draws on which the
  call completes (no finite bound exists, the retry loops redraw until a new square
  comes up). And every round it returns has exactly \<open>roundLength\<close> squares, no square
  twice, each one a square of the board.
\<close>

theorem generatePositionsForRound_round:
  assumes "position \<in> set squares"
    and "getReachablePositions piece position = Some R"
    and "targetCount roundLength r \<le> card (set R)"
  shows "(\<forall>rs. validDraws rs \<longrightarrow>
            (\<exists>rs' out rest. validDraws rs' \<and>
               generatePositionsForRound piece position roundLength (r # rs @ rs') =
                 Inr (out, rest))) \<and>
         (\<forall>rs out rest.
            generatePositionsForRound piece position roundLength (r # rs) = Inr (out, rest) \<longrightarrow>
            length (positions out) = roundLength \<and> distinct (positions out) \<and>
            set (positions out) \<subseteq> set squares)"
proof (rule conjI)
  show "\<forall>rs. validDraws rs \<longrightarrow>
          (\<exists>rs' out rest. validDraws rs' \<and>
             generatePositionsForRound piece position roundLength (r # rs @ rs') =
               Inr (out, rest))"
  proof (intro allI impI)
  fix rs
  assume v: "validDraws rs"
  from reachable_on_square [OF assms(1,2)] have R: "length R \<le> 13" by simp
  have "card (set R) \<le> length R" by (rule card_length)
  with R assms(3) have "targetCount roundLength r \<le> 13" by simp
  with targetCount_large [of roundLength r] have "\<not> 64 < roundLength" by auto
  then have "roundLength \<le> card (set squares)" by (simp add: card_squares)
  from selectLoop_can_return [OF assms(3) this, of "[]" 0 rs] v
  obtain rs1 sel rest1 where v1: "validDraws rs1" "validDraws rest1"
    and s: "\<forall>ext. selectLoop R (targetCount roundLength r) roundLength 0 [] (rs @ rs1 @ ext) =
                   Inr (sel, rest1 @ ext)"
    by auto
  have "length sel - 1 < length sel \<or> length sel - 1 = 0" by (cases sel) simp_all
  from shuffleLoop_can_return [OF this v1(2)]
  obtain rs2 a' rest where v2: "validDraws rs2"
    and sh: "shuffleLoop (length sel - 1) sel (rest1 @ rs2) = Inr (a', rest)"
    by blast
  from s have "selectLoop R (targetCount roundLength r) roundLength 0 [] (rs @ rs1 @ rs2) =
                 Inr (sel, rest1 @ rs2)"
    by blast
  with sh assms(2)
  have "generatePositionsForRound piece position roundLength (r # rs @ (rs1 @ rs2)) =
          Inr (\<lparr>positions = a', positiveSampleCount = targetCount roundLength r\<rparr>, rest)"
    by (simp add: generatePositionsForRound_def shuffleArray_def Let_def)
  with v1 v2 show "\<exists>rs' out rest. validDraws rs' \<and>
      generatePositionsForRound piece position roundLength (r # rs @ rs') = Inr (out, rest)"
    by (metis validDraws_simps(3))
  qed
next
  show "\<forall>rs out rest.
          generatePositionsForRound piece position roundLength (r # rs) = Inr (out, rest) \<longrightarrow>
          length (positions out) = roundLength \<and> distinct (positions out) \<and>
          set (positions out) \<subseteq> set squares"
  proof (intro allI impI)
    fix rs out rest
    assume "generatePositionsForRound piece position roundLength (r # rs) = Inr (out, rest)"
    from generatePositionsForRound_result [OF this assms(2)] reachable_on_square [OF assms(1,2)]
    show "length (positions out) = roundLength \<and> distinct (positions out) \<and>
          set (positions out) \<subseteq> set squares"
      by simp
  qed
qed

text \<open>The knight on \<open>d4\<close>, five trials, the draws of \<open>sampleDraws\<close> after the origin's.\<close>

lemma sample_round:
  "generatePositionsForRound Knight ''d4'' 5 (0 # [0, 1 / 8, 0, 1 / 64, 1 / 32, 0, 0, 0, 0]) =
     Inr (\<lparr>positions = [''b5'', ''a1'', ''a2'', ''a3'', ''b3''], positiveSampleCount = 2\<rparr>, [])"
  by code_simp

theorem generatePositionsForRound_round_witness:
  "''d4'' \<in> set squares \<and>
   getReachablePositions Knight ''d4'' =
     Some [''b3'', ''b5'', ''c2'', ''c6'', ''e2'', ''e6'', ''f3'', ''f5''] \<and>
   targetCount 5 0 \<le> card (set [''b3'', ''b5'', ''c2'', ''c6'', ''e2'', ''e6'', ''f3'', ''f5'']) \<and>
   validDraws [0, 1 / 8, 0, 1 / 64, 1 / 32, 0, 0, 0, 0] \<and>
   generatePositionsForRound Knight ''d4'' 5 (0 # [0, 1 / 8, 0, 1 / 64, 1 / 32, 0, 0, 0, 0]) =
     Inr (\<lparr>positions = [''b5'', ''a1'', ''a2'', ''a3'', ''b3''], positiveSampleCount = 2\<rparr>, []) \<and>
   length [''b5'', ''a1'', ''a2'', ''a3'', ''b3''] = (5::nat) \<and>
   distinct [''b5'', ''a1'', ''a2'', ''a3'', ''b3''] \<and>
   set [''b5'', ''a1'', ''a2'', ''a3'', ''b3''] \<subseteq> set squares"
proof -
  have h1: "''d4'' \<in> set squares" by (simp add: squares_eq)
  have h3: "targetCount 5 0 \<le>
      card (set [''b3'', ''b5'', ''c2'', ''c6'', ''e2'', ''e6'', ''f3'', ''f5''])"
    by code_simp
  have v: "validDraws [0, 1 / 8, 0, 1 / 64, 1 / 32, 0, 0, 0, 0]" by simp
  from generatePositionsForRound_round [OF h1 knight_from_d4 h3] sample_round
  have "length [''b5'', ''a1'', ''a2'', ''a3'', ''b3''] = (5::nat) \<and>
        distinct [''b5'', ''a1'', ''a2'', ''a3'', ''b3''] \<and>
        set [''b5'', ''a1'', ''a2'', ''a3'', ''b3''] \<subseteq> set squares"
    by fastforce
  with h1 knight_from_d4 h3 v sample_round show ?thesis by blast
qed

subsection \<open>An invariant of the reachable configurations\<close>

lemma getReachablePositions_Knight_Some:
  assumes "2 \<le> length p"
  shows "\<exists>R. getReachablePositions Knight p = Some R"
proof -
  from assms obtain c1 c2 rest where "p = c1 # c2 # rest"
    by (cases p; cases "tl p") auto
  then show ?thesis by simp
qed

lemma isReachable_Knight_Some: "2 \<le> length p \<Longrightarrow> \<exists>b. isReachable Knight p q = Some b"
  using getReachablePositions_Knight_Some [of p] by (auto simp: isReachable_def)

lemma length_square: "p \<in> set squares \<Longrightarrow> length p = 2"
  by (auto simp: squares_eq)

lemma those_newTrial:
  "those (map (newTrial p) xs) = Some ts \<Longrightarrow>
     length ts = length xs \<and> (\<forall>t \<in> set ts. userResponse t = None \<and> outcome t = None)"
  by (induction xs arbitrary: ts) (auto simp: newTrial_def split: option.splits)

lemma classify_no_response: "classify b None \<noteq> Hit \<and> classify b None \<noteq> FalseAlarm"
  by (simp add: classify_def)

lemma jsIndex_take:
  "jsIndex xs i = Some x \<Longrightarrow> i < int n \<Longrightarrow> x \<in> set (take n xs)"
  by (auto simp: jsIndex_def in_set_conv_nth split: if_splits intro!: exI [of _ "nat i"])

lemma initialiseNextRound_wellFormed:
  assumes "initialiseNextRound rs ctx = Some ctx'" "wellFormed (s, ctx)"
  shows "wellFormed (Playing ps, ctx')"
proof -
  from assms(1) obtain r rs' p generated rs'' newTrials where rs: "rs = r # rs'"
    and p: "getRandomSquare r = Some p"
    and g: "generatePositionsForRound Knight p TRIALS_PER_ROUND rs' = Inr (generated, rs'')"
    and t: "those (map (newTrial p) (positions generated)) = Some newTrials"
    and c: "ctx' = ctx\<lparr>piecePositionForRound := p,
                guessesRemainingInRound := int TRIALS_PER_ROUND,
                positionsForRound := positions generated,
                currentRound := currentRound ctx + 1,
                roundData := AList.update (currentRound ctx + 1)
                  \<lparr>round_piecePositionForRound = p, trials = newTrials\<rparr> (roundData ctx)\<rparr>"
    by (auto simp: initialiseNextRound_def split: list.splits option.splits sum.splits)
  from p have sq: "p \<in> set squares"
    using getRandomArrayElement_in_set by (fastforce simp: getRandomSquare_eq)
  then have lp: "length p = 2" by (rule length_square)
  from g obtain R where R: "getReachablePositions Knight p = Some R"
    by (auto simp: generatePositionsForRound_def split: option.splits)
  from generatePositionsForRound_result [OF g R] reachable_on_square [OF sq R]
  have "length (positions generated) = TRIALS_PER_ROUND" by simp
  with those_newTrial [OF t] have n: "length newTrials = TRIALS_PER_ROUND"
    and u: "\<forall>t \<in> set newTrials. userResponse t = None \<and> outcome t = None" by simp_all
  from u have u': "\<forall>t \<in> set (take TRIALS_PER_ROUND newTrials). userResponse t = None"
    by (auto dest: in_set_takeD)
  from assms(2) have old: "\<forall>k rd. map_of (roundData ctx) k = Some rd \<longrightarrow>
        (\<forall>t \<in> set (trials rd). outcome t \<noteq> Some Hit \<and> outcome t \<noteq> Some FalseAlarm)"
    by (simp add: wellFormed_def)
  from c lp n u u' old show ?thesis
    by (auto simp: wellFormed_def update_conv' TRIALS_PER_ROUND_def)
qed

lemma evaluateGuess_Some:
  assumes "map_of (roundData ctx) (currentRound ctx) = Some rd"
    and "1 \<le> guessesRemainingInRound ctx" "guessesRemainingInRound ctx \<le> int TRIALS_PER_ROUND"
    and "TRIALS_PER_ROUND \<le> length (trials rd)" "2 \<le> length (round_piecePositionForRound rd)"
  shows "\<exists>t b. t \<in> set (take TRIALS_PER_ROUND (trials rd)) \<and>
           evaluateGuess ctx =
             Some (ctx\<lparr>roundData := AList.update (currentRound ctx)
                     (rd\<lparr>trials := trials rd @
                        [t\<lparr>outcome := Some (classify b (userResponse t))\<rparr>]\<rparr>) (roundData ctx)\<rparr>)"
proof -
  let ?i = "int TRIALS_PER_ROUND - guessesRemainingInRound ctx"
  from assms(2-4) have "0 \<le> ?i \<and> ?i < int (length (trials rd))" by simp
  then obtain t where t: "jsIndex (trials rd) ?i = Some t" by (simp add: jsIndex_def)
  from assms(2) have "?i < int TRIALS_PER_ROUND" by simp
  with t have tk: "t \<in> set (take TRIALS_PER_ROUND (trials rd))" by (rule jsIndex_take)
  from isReachable_Knight_Some [OF assms(5)]
  obtain b where "isReachable Knight (round_piecePositionForRound rd) (stimulus t) = Some b"
    by blast
  with assms(1) t have "evaluateGuess ctx =
             Some (ctx\<lparr>roundData := AList.update (currentRound ctx)
                     (rd\<lparr>trials := trials rd @
                        [t\<lparr>outcome := Some (classify b (userResponse t))\<rparr>]\<rparr>) (roundData ctx)\<rparr>)"
    by (simp add: evaluateGuess_def)
  with tk show ?thesis by blast
qed

lemma saveUserResponse_Some:
  assumes "map_of (roundData ctx) (currentRound ctx) = Some rd"
    and "1 \<le> guessesRemainingInRound ctx" "guessesRemainingInRound ctx \<le> int TRIALS_PER_ROUND"
    and "TRIALS_PER_ROUND \<le> length (trials rd)"
  shows "\<exists>t. t \<in> set (take TRIALS_PER_ROUND (trials rd)) \<and>
           saveUserResponse u ctx =
             Some (ctx\<lparr>roundData := AList.update (currentRound ctx)
                     (rd\<lparr>trials := trials rd @ [t\<lparr>userResponse := Some u\<rparr>]\<rparr>) (roundData ctx)\<rparr>)"
proof -
  let ?i = "int TRIALS_PER_ROUND - guessesRemainingInRound ctx"
  from assms(2-4) have "0 \<le> ?i \<and> ?i < int (length (trials rd))" by simp
  then obtain t where t: "jsIndex (trials rd) ?i = Some t" by (simp add: jsIndex_def)
  from assms(2) have "?i < int TRIALS_PER_ROUND" by simp
  with t have tk: "t \<in> set (take TRIALS_PER_ROUND (trials rd))" by (rule jsIndex_take)
  from assms(1) t have "saveUserResponse u ctx =
             Some (ctx\<lparr>roundData := AList.update (currentRound ctx)
                     (rd\<lparr>trials := trials rd @ [t\<lparr>userResponse := Some u\<rparr>]\<rparr>) (roundData ctx)\<rparr>)"
    by (simp add: saveUserResponse_def)
  with tk show ?thesis by blast
qed

lemma isHit_Some: "2 \<le> length (piecePositionForRound ctx) \<Longrightarrow> \<exists>b. isHit ctx = Some b"
  using isReachable_Knight_Some [of "piecePositionForRound ctx"]
  by (auto simp: isHit_def split: option.splits)

text \<open>Appending a copy of one of the first five trials keeps the round well formed.\<close>

lemma wellFormed_append:
  assumes w: "wellFormed (Playing ps, ctx)"
    and rd: "map_of (roundData ctx) (currentRound ctx) = Some rd"
    and t: "outcome t' \<noteq> Some Hit" "outcome t' \<noteq> Some FalseAlarm"
    and g: "1 \<le> g'" "g' \<le> int TRIALS_PER_ROUND"
  shows "wellFormed (Playing ps',
           ctx\<lparr>guessesRemainingInRound := g',
               roundData := AList.update (currentRound ctx)
                 (rd\<lparr>trials := trials rd @ [t']\<rparr>) (roundData ctx)\<rparr>)"
  using assms by (auto simp: wellFormed_def update_conv')

lemma tick_in_round:
  assumes "wellFormed (Playing (PlayingRound sub), ctx)" "1 < guessesRemainingInRound ctx"
  shows "\<exists>ctx'. step rs (Playing (PlayingRound sub), ctx) Tick =
                  Some (Playing (PlayingRound WaitingForResponse), ctx') \<and>
               wellFormed (Playing (PlayingRound WaitingForResponse), ctx')"
proof -
  let ?d = "decrementGuessesRemainingInRound ctx"
  from assms(1) obtain rd where rd: "map_of (roundData ctx) (currentRound ctx) = Some rd"
    "TRIALS_PER_ROUND \<le> length (trials rd)" "2 \<le> length (round_piecePositionForRound rd)"
    "\<forall>t \<in> set (take TRIALS_PER_ROUND (trials rd)). userResponse t = None"
    and g: "guessesRemainingInRound ctx \<le> int TRIALS_PER_ROUND"
    by (auto simp: wellFormed_def)
  have "\<exists>t b. t \<in> set (take TRIALS_PER_ROUND (trials rd)) \<and>
           evaluateGuess ?d =
             Some (?d\<lparr>roundData := AList.update (currentRound ?d)
                     (rd\<lparr>trials := trials rd @
                        [t\<lparr>outcome := Some (classify b (userResponse t))\<rparr>]\<rparr>) (roundData ?d)\<rparr>)"
    using rd g assms(2)
    by (intro evaluateGuess_Some) (simp_all add: decrementGuessesRemainingInRound_def)
  then obtain t b where t: "t \<in> set (take TRIALS_PER_ROUND (trials rd))"
    and e: "evaluateGuess ?d =
             Some (?d\<lparr>roundData := AList.update (currentRound ?d)
                     (rd\<lparr>trials := trials rd @
                        [t\<lparr>outcome := Some (classify b (userResponse t))\<rparr>]\<rparr>) (roundData ?d)\<rparr>)"
    by blast
  from t rd(4) have "userResponse t = None" by blast
  with classify_no_response [of b]
  have o: "outcome (t\<lparr>outcome := Some (classify b (userResponse t))\<rparr>) \<noteq> Some Hit"
    "outcome (t\<lparr>outcome := Some (classify b (userResponse t))\<rparr>) \<noteq> Some FalseAlarm"
    by simp_all
  from assms(2) g have g': "1 \<le> guessesRemainingInRound ctx - 1"
    "guessesRemainingInRound ctx - 1 \<le> int TRIALS_PER_ROUND" by simp_all
  from wellFormed_append [OF assms(1) rd(1) o g', of "PlayingRound WaitingForResponse"]
  have "wellFormed (Playing (PlayingRound WaitingForResponse),
          clearCurrentGuess (setupNextTrial
            (?d\<lparr>roundData := AList.update (currentRound ?d)
                     (rd\<lparr>trials := trials rd @
                        [t\<lparr>outcome := Some (classify b (userResponse t))\<rparr>]\<rparr>) (roundData ?d)\<rparr>)))"
    by (simp add: wellFormed_def decrementGuessesRemainingInRound_def setupNextTrial_def
        clearCurrentGuess_def)
  with e assms(2) show ?thesis by simp
qed

lemma response_in_round:
  assumes "wellFormed (Playing (PlayingRound WaitingForResponse), ctx)"
  shows "\<exists>sub ctx'. step rs (Playing (PlayingRound WaitingForResponse), ctx) (UserResponseEvent u) =
                  Some (Playing (PlayingRound sub), ctx') \<and>
               wellFormed (Playing (PlayingRound sub), ctx')"
proof -
  from assms obtain rd where rd: "map_of (roundData ctx) (currentRound ctx) = Some rd"
    "TRIALS_PER_ROUND \<le> length (trials rd)" "2 \<le> length (round_piecePositionForRound rd)"
    "\<forall>t \<in> set (take TRIALS_PER_ROUND (trials rd)). userResponse t = None"
    "\<forall>t \<in> set (trials rd). outcome t \<noteq> Some Hit \<and> outcome t \<noteq> Some FalseAlarm"
    and g: "1 \<le> guessesRemainingInRound ctx" "guessesRemainingInRound ctx \<le> int TRIALS_PER_ROUND"
    and pp: "2 \<le> length (piecePositionForRound ctx)"
    by (auto simp: wellFormed_def)
  from isHit_Some [OF pp] obtain h where h: "isHit ctx = Some h" by blast
  from saveUserResponse_Some [OF rd(1) g rd(2), of u] obtain t1 where
    t1: "t1 \<in> set (take TRIALS_PER_ROUND (trials rd))"
    and s: "saveUserResponse u ctx =
          Some (ctx\<lparr>roundData := AList.update (currentRound ctx)
                  (rd\<lparr>trials := trials rd @ [t1\<lparr>userResponse := Some u\<rparr>]\<rparr>) (roundData ctx)\<rparr>)"
    by blast
  let ?rd1 = "rd\<lparr>trials := trials rd @ [t1\<lparr>userResponse := Some u\<rparr>]\<rparr>"
  let ?c1 = "ctx\<lparr>roundData := AList.update (currentRound ctx) ?rd1 (roundData ctx)\<rparr>"
  from t1 have "t1 \<in> set (trials rd)" by (rule in_set_takeD)
  with rd(5) have o1: "outcome (t1\<lparr>userResponse := Some u\<rparr>) \<noteq> Some Hit"
    "outcome (t1\<lparr>userResponse := Some u\<rparr>) \<noteq> Some FalseAlarm" by simp_all
  from wellFormed_append [OF assms rd(1) o1 g, of "PlayingRound WaitingForResponse"]
  have w1: "wellFormed (Playing (PlayingRound WaitingForResponse), ?c1)"
    by (simp add: wellFormed_def)
  have rd1: "map_of (roundData ?c1) (currentRound ?c1) = Some ?rd1" by (simp add: update_conv')
  have "\<exists>t b. t \<in> set (take TRIALS_PER_ROUND (trials ?rd1)) \<and>
           evaluateGuess ?c1 =
             Some (?c1\<lparr>roundData := AList.update (currentRound ?c1)
                     (?rd1\<lparr>trials := trials ?rd1 @
                        [t\<lparr>outcome := Some (classify b (userResponse t))\<rparr>]\<rparr>) (roundData ?c1)\<rparr>)"
    using rd g by (intro evaluateGuess_Some [OF rd1]) simp_all
  then obtain t2 b where t2: "t2 \<in> set (take TRIALS_PER_ROUND (trials ?rd1))"
    and e: "evaluateGuess ?c1 =
             Some (?c1\<lparr>roundData := AList.update (currentRound ?c1)
                     (?rd1\<lparr>trials := trials ?rd1 @
                        [t2\<lparr>outcome := Some (classify b (userResponse t2))\<rparr>]\<rparr>) (roundData ?c1)\<rparr>)"
    by blast
  from t2 rd(2,4) have "userResponse t2 = None" by simp
  with classify_no_response [of b]
  have o2: "outcome (t2\<lparr>outcome := Some (classify b (userResponse t2))\<rparr>) \<noteq> Some Hit"
    "outcome (t2\<lparr>outcome := Some (classify b (userResponse t2))\<rparr>) \<noteq> Some FalseAlarm"
    by simp_all
  from g have g1: "1 \<le> guessesRemainingInRound ?c1"
    "guessesRemainingInRound ?c1 \<le> int TRIALS_PER_ROUND" by simp_all
  from wellFormed_append [OF w1 rd1 o2 g1,
      of "PlayingRound (if h then HitTag else FalseAlarmTag)"]
  have "wellFormed (Playing (PlayingRound (if h then HitTag else FalseAlarmTag)),
          ?c1\<lparr>roundData := AList.update (currentRound ?c1)
                     (?rd1\<lparr>trials := trials ?rd1 @
                        [t2\<lparr>outcome := Some (classify b (userResponse t2))\<rparr>]\<rparr>) (roundData ?c1)\<rparr>)"
    by (simp add: wellFormed_def)
  with h s e show ?thesis by simp
qed

lemma step_wellFormed:
  assumes "wellFormed (s, ctx)" "step rs (s, ctx) e = Some (s', ctx')"
  shows "wellFormed (s', ctx')"
proof (cases "(rs, (s, ctx), e)" rule: step.cases)
  case (1 rs0 ctx0)
  with assms show ?thesis by (auto dest: initialiseNextRound_wellFormed)
next
  case (2 rs0 ctx0)
  with assms show ?thesis by (auto simp: wellFormed_def)
next
  case (3 rs0 ctx0)
  from assms(1) have "wellFormed (s, initialiseCountdown ctx)"
    by (simp add: wellFormed_def initialiseCountdown_def)
  with 3 assms show ?thesis
    by (auto simp: wellFormed_def decrementCountdown_def split: if_splits
        dest: initialiseNextRound_wellFormed)
next
  case (4 rs0 ctx0)
  with assms show ?thesis by (auto simp: wellFormed_def setupNextTrial_def)
next
  case (5 rs0 ctx0 u)
  with assms response_in_round [of ctx rs u] show ?thesis by auto
next
  case (6 rs0 sub ctx0)
  show ?thesis
  proof (cases "1 < guessesRemainingInRound ctx")
    case True
    with 6 assms tick_in_round [of sub ctx rs] show ?thesis by auto
  next
    case False
    with 6 assms show ?thesis
      by (auto simp: wellFormed_def calculateAccuracyScoreAction_def split: if_splits
          dest: initialiseNextRound_wellFormed)
  qed
next
  case (7 rs0 ctx0)
  with assms show ?thesis by (auto simp: wellFormed_def)
qed (use assms in auto)

lemma reachable_wellFormed: "reachable c \<Longrightarrow> wellFormed c"
proof (induction rule: reachable.induct)
  case initial
  show ?case by (simp add: wellFormed_def initialContext_def TRIALS_PER_ROUND_def)
next
  case (step c rs e c')
  then show ?case using step_wellFormed [of "fst c" "snd c" rs e "fst c'" "snd c'"] by simp
qed

text \<open>
  In a reachable configuration a step is defined unless it has to start a round and
  the round's generation does not return a round from the draws it is given.
\<close>

lemma reachable_step_defined:
  assumes "reachable (s, ctx)" "step rs (s, ctx) e = None"
  shows "(e = Start \<or> e = Tick) \<and>
         (initialiseNextRound rs ctx = None \<or>
          initialiseNextRound rs (initialiseCountdown ctx) = None)"
proof -
  from assms(1) have w: "wellFormed (s, ctx)" by (rule reachable_wellFormed)
  show ?thesis
  proof (cases "(rs, (s, ctx), e)" rule: step.cases)
    case (5 rs0 ctx0 u)
    with assms(2) w response_in_round [of ctx rs u] show ?thesis by auto
  next
    case (6 rs0 sub ctx0)
    show ?thesis
    proof (cases "1 < guessesRemainingInRound ctx")
      case True
      with 6 assms(2) w tick_in_round [of sub ctx rs] show ?thesis by auto
    next
      case False
      with 6 assms(2) show ?thesis by (auto split: if_splits)
    qed
  qed (use assms(2) in \<open>auto split: if_splits\<close>)
qed

text \<open>
  No trial record of a reachable configuration carries the outcome hit or false alarm:
  the trial that \<open>evaluateGuess\<close> reads is one of the round's first five records, and
  the response is stored in a copy behind them.
\<close>

lemma reachable_outcomes:
  assumes "reachable c" "t \<in> set (trialRecords k c)"
  shows "outcome t = None \<or> outcome t = Some Miss \<or> outcome t = Some CorrectRejection"
proof -
  from assms(1) have "wellFormed c" by (rule reachable_wellFormed)
  then have all: "\<forall>k rd. map_of (roundData (snd c)) k = Some rd \<longrightarrow>
      (\<forall>t \<in> set (trials rd). outcome t \<noteq> Some Hit \<and> outcome t \<noteq> Some FalseAlarm)"
    by (simp add: wellFormed_def)
  from assms(2) obtain rd where "map_of (roundData (snd c)) k = Some rd" "t \<in> set (trials rd)"
    by (cases "map_of (roundData (snd c)) k") (simp_all add: trialRecords_def)
  with all have "outcome t \<noteq> Some Hit \<and> outcome t \<noteq> Some FalseAlarm" by blast
  then show ?thesis
    by (cases "outcome t") (auto intro: TrialOutcome.exhaust)
qed

subsection \<open>What the machine records for a trial\<close>

text \<open>
  By \<open>reachable_outcomes\<close> the machine never records a hit or a false alarm. The two
  runs below show where the outcomes it does record end up.
\<close>

text \<open>
  \<^bold>\<open>C1 (what the machine does instead).\<close> At the end of a session without responses the
  five records the round was created with carry no outcome, and the first trial
  (\<open>b5\<close>) has no record with an outcome at all. When the subject answers the second
  trial (\<open>a1\<close>), that trial has two records with an outcome: one written by the tick
  that opened its window, one by the response.
\<close>

theorem trials_left_unclassified_and_classified_twice:
  "map_option (\<lambda>c. (fst c, map outcome (trialRecords 1 c)))
     (run (Idle, initialContext) silentSession) =
     Some (GameOver,
           [None, None, None, None, None,
            Some CorrectRejection, Some CorrectRejection, Some CorrectRejection, Some Miss]) \<and>
   map_option (map outcome \<circ> recordsOf 1 ''b5'') (run (Idle, initialContext) silentSession) =
     Some [None] \<and>
   map_option (map outcome \<circ> recordsOf 1 ''a1'') (run (Idle, initialContext) twoResponses) =
     Some [None, Some CorrectRejection, None, Some CorrectRejection]"
  by code_simp

text \<open>
  \<^bold>\<open>C2 (what the machine does instead).\<close> The tick that closes the window of the first
  trial (\<open>b5\<close>) lowers the count to 4 and appends an outcome for \<open>a1\<close>, the trial it is
  about to show, and none for \<open>b5\<close>. When the subject did answer \<open>b5\<close>, the response is
  in a record of its own; the record evaluated at the response carries no response and
  the outcome \<open>miss\<close>, and the tick again appends an outcome for \<open>a1\<close> only.
\<close>

theorem tick_classifies_the_trial_it_opens:
  "map_option
     (\<lambda>c. (fst c, guessesRemainingInRound (snd c), currentSquare (snd c),
           drop 5 (trialRecords 1 c)))
     (run (Idle, initialContext) firstWindow) =
     Some (Playing (PlayingRound WaitingForResponse), 4, Some ''a1'',
           [\<lparr>stimulus = ''a1'', isTarget = False, userResponse = None,
             outcome = Some CorrectRejection\<rparr>]) \<and>
   map_option (\<lambda>c. (fst c, drop 5 (trialRecords 1 c)))
     (run (Idle, initialContext) (take 4 twoResponses)) =
     Some (Playing (PlayingRound WaitingForResponse),
           [\<lparr>stimulus = ''b5'', isTarget = True, userResponse = Some Match, outcome = None\<rparr>,
            \<lparr>stimulus = ''b5'', isTarget = True, userResponse = None, outcome = Some Miss\<rparr>,
            \<lparr>stimulus = ''a1'', isTarget = False, userResponse = None,
             outcome = Some CorrectRejection\<rparr>])"
  by code_simp

end
